theory Spec2Isabelle
  imports Main "HOL-Library.Sublist" "HOL-Library.Word"
begin

section \<open>JavaScript strings\<close>

text \<open>
  The anonymizer (\<^verbatim>\<open>tools/scripts/anonymize-package.js\<close>, the script embedded in the
  repository's README) works on JavaScript strings. A string is modelled as a
  \<^typ>\<open>string\<close>; one \<^typ>\<open>char\<close> stands for one UTF-16 code unit in the range 0..255.
\<close>

definition startsWith :: "string \<Rightarrow> string \<Rightarrow> bool" where
  "startsWith s p = prefix p s"

definition endsWith :: "string \<Rightarrow> string \<Rightarrow> bool" where
  "endsWith s p = suffix p s"

text \<open>The two quote characters that delimit a module specifier.\<close>

definition sq :: char where
  "sq = CHR 0x27"

definition dq :: char where
  "dq = CHR 0x22"

definition quoted :: "string \<Rightarrow> string" where
  "quoted s = sq # s @ [sq]"

text \<open>\<^verbatim>\<open>s.replace(/<suffix>$/, '')\<close> for a literal suffix: the suffix is dropped when present.\<close>

definition stripSuffix :: "string \<Rightarrow> string \<Rightarrow> string" where
  "stripSuffix suf s = (if suffix suf s then take (length s - length suf) s else s)"

text \<open>\<^verbatim>\<open>s.replace(/\\/g, '/')\<close>: every backslash becomes a forward slash.\<close>

definition backslashesToSlashes :: "string \<Rightarrow> string" where
  "backslashesToSlashes s = map (\<lambda>c. if c = CHR 0x5C then CHR ''/'' else c) s"

text \<open>
  \<^verbatim>\<open>String.prototype.replace(pattern, replacement)\<close> with a string pattern replaces the
  first occurrence only, and expands the dollar patterns of the replacement string:
  \<^verbatim>\<open>$$\<close> is a dollar sign, \<^verbatim>\<open>$&\<close> the matched text, \<^verbatim>\<open>$`\<close> the text before the match and
  \<^verbatim>\<open>$'\<close> the text after it. A string pattern has no capture groups, so \<^verbatim>\<open>$1\<close> stays as it is.
\<close>

fun expandReplacement :: "string \<Rightarrow> string \<Rightarrow> string \<Rightarrow> string \<Rightarrow> string" where
  "expandReplacement pre matched post (a # b # rest) =
     (if a = CHR ''$'' \<and> b = CHR ''$'' then CHR ''$'' # expandReplacement pre matched post rest
      else if a = CHR ''$'' \<and> b = CHR ''&'' then matched @ expandReplacement pre matched post rest
      else if a = CHR ''$'' \<and> b = CHR 0x60 then pre @ expandReplacement pre matched post rest
      else if a = CHR ''$'' \<and> b = sq then post @ expandReplacement pre matched post rest
      else a # expandReplacement pre matched post (b # rest))"
| "expandReplacement pre matched post rest = rest"

fun replaceFirstFrom :: "string \<Rightarrow> string \<Rightarrow> string \<Rightarrow> string \<Rightarrow> string" where
  "replaceFirstFrom pre pat rep [] =
     (if pat = [] then pre @ expandReplacement pre [] [] rep else pre)"
| "replaceFirstFrom pre pat rep (c # cs) =
     (if prefix pat (c # cs)
      then pre @ expandReplacement pre pat (drop (length pat) (c # cs)) rep
             @ drop (length pat) (c # cs)
      else replaceFirstFrom (pre @ [c]) pat rep cs)"

definition replaceFirst :: "string \<Rightarrow> string \<Rightarrow> string \<Rightarrow> string" where
  "replaceFirst s pat rep = replaceFirstFrom [] pat rep s"

section \<open>Node's POSIX path module\<close>

text \<open>
  The script calls \<^verbatim>\<open>path.resolve\<close>, \<^verbatim>\<open>path.normalize\<close>, \<^verbatim>\<open>path.join\<close>, \<^verbatim>\<open>path.relative\<close> and
  \<^verbatim>\<open>path.dirname\<close>. They are modelled on path strings after the POSIX implementation of
  the runtime: a path is cut at its slashes, the segments are normalised, and the
  result is put together again.
\<close>

fun splitSlash :: "string \<Rightarrow> string \<Rightarrow> string list" where
  "splitSlash acc [] = [acc]"
| "splitSlash acc (c # cs) =
     (if c = CHR ''/'' then acc # splitSlash [] cs else splitSlash (acc @ [c]) cs)"

fun joinSlash :: "string list \<Rightarrow> string" where
  "joinSlash [] = []"
| "joinSlash [x] = x"
| "joinSlash (x # y # ys) = x @ CHR ''/'' # joinSlash (y # ys)"

text \<open>
  \<^verbatim>\<open>normalizeString\<close>: empty segments and \<^verbatim>\<open>.\<close> are dropped; \<^verbatim>\<open>..\<close> removes the segment
  before it unless there is none or it is itself \<^verbatim>\<open>..\<close>, in which case \<^verbatim>\<open>..\<close> is kept for a
  relative path and dropped for an absolute one. The stack is kept in reverse.
\<close>

fun normalizeSegs :: "bool \<Rightarrow> string list \<Rightarrow> string list \<Rightarrow> string list" where
  "normalizeSegs allowAboveRoot stack [] = rev stack"
| "normalizeSegs allowAboveRoot stack (seg # segs) =
     (if seg = [] \<or> seg = ''.'' then normalizeSegs allowAboveRoot stack segs
      else if seg = ''..'' then
        (case stack of
           seg' # below \<Rightarrow>
             if seg' = ''..'' then normalizeSegs allowAboveRoot (''..'' # stack) segs
             else normalizeSegs allowAboveRoot below segs
         | [] \<Rightarrow>
             if allowAboveRoot then normalizeSegs allowAboveRoot [''..''] segs
             else normalizeSegs allowAboveRoot [] segs)
      else normalizeSegs allowAboveRoot (seg # stack) segs)"

definition normalizeString :: "string \<Rightarrow> bool \<Rightarrow> string" where
  "normalizeString p allowAboveRoot = joinSlash (normalizeSegs allowAboveRoot [] (splitSlash [] p))"

definition isAbsolute :: "string \<Rightarrow> bool" where
  "isAbsolute p = (case p of [] \<Rightarrow> False | c # _ \<Rightarrow> c = CHR ''/'')"

definition path_normalize :: "string \<Rightarrow> string" where
  "path_normalize p =
     (if p = [] then ''.''
      else let trailingSeparator = (last p = CHR ''/'');
               n = normalizeString p (\<not> isAbsolute p)
           in if n = [] then
                (if isAbsolute p then ''/'' else if trailingSeparator then ''./'' else ''.'')
              else (if isAbsolute p then ''/'' else []) @ n
                     @ (if trailingSeparator then ''/'' else []))"

text \<open>\<^verbatim>\<open>path.join\<close>: the non-empty arguments, joined by slashes, then normalised.\<close>

definition path_join :: "string list \<Rightarrow> string" where
  "path_join args =
     (let parts = filter (\<lambda>a. a \<noteq> []) args
      in if parts = [] then ''.'' else path_normalize (joinSlash parts))"

text \<open>
  \<^verbatim>\<open>path.resolve\<close>: the arguments are taken from the right until an absolute one is
  found; the working directory comes last. Empty arguments are skipped.
\<close>

fun resolveArgs :: "string \<Rightarrow> string list \<Rightarrow> string" where
  "resolveArgs resolvedPath [] = resolvedPath"
| "resolveArgs resolvedPath (p # ps) =
     (if p = [] then resolveArgs resolvedPath ps
      else if isAbsolute p then p @ CHR ''/'' # resolvedPath
      else resolveArgs (p @ CHR ''/'' # resolvedPath) ps)"

definition path_resolve :: "string \<Rightarrow> string list \<Rightarrow> string" where
  "path_resolve cwd args =
     (let resolvedPath = resolveArgs [] (rev (cwd # args));
          resolvedAbsolute = isAbsolute resolvedPath;
          n = normalizeString resolvedPath (\<not> resolvedAbsolute)
      in if resolvedAbsolute then CHR ''/'' # n else if n = [] then ''.'' else n)"

text \<open>
  \<^verbatim>\<open>path.dirname\<close>: trailing slashes are skipped, then the path is cut at the last slash
  that is not its first character.
\<close>

definition path_dirname :: "string \<Rightarrow> string" where
  "path_dirname p =
     (case p of
        [] \<Rightarrow> ''.''
      | c # cs \<Rightarrow>
          let hasRoot = (c = CHR ''/'');
              r = dropWhile (\<lambda>x. x \<noteq> CHR ''/'') (dropWhile (\<lambda>x. x = CHR ''/'') (rev cs))
          in if r = [] then (if hasRoot then ''/'' else ''.'')
             else if hasRoot \<and> length r = 1 then ''//''
             else take (length r) p)"

text \<open>
  \<^verbatim>\<open>path.relative\<close>: both paths are resolved; the result climbs out of what is left of
  \<^verbatim>\<open>from\<close> after the common directories and then descends into what is left of \<^verbatim>\<open>to\<close>.
\<close>

fun dropCommon :: "string list \<Rightarrow> string list \<Rightarrow> string list \<times> string list" where
  "dropCommon (x # xs) (y # ys) = (if x = y then dropCommon xs ys else (x # xs, y # ys))"
| "dropCommon xs ys = (xs, ys)"

definition pathSegs :: "string \<Rightarrow> string list" where
  "pathSegs p = filter (\<lambda>s. s \<noteq> []) (splitSlash [] p)"

definition path_relative :: "string \<Rightarrow> string \<Rightarrow> string \<Rightarrow> string" where
  "path_relative cwd from to =
     (if from = to then []
      else let f = path_resolve cwd [from]; t = path_resolve cwd [to]
           in if f = t then []
              else case dropCommon (pathSegs f) (pathSegs t) of
                     (fs, ts) \<Rightarrow> joinSlash (map (\<lambda>_. ''..'') fs @ ts))"

section \<open>Regular expressions\<close>

text \<open>
  The script recognises import and export statements with three regular expressions.
  They are modelled as backtracking matchers in continuation-passing style, the way the
  language standard defines matching: a matcher takes the continuation that matches
  the rest of the pattern and the text still to be read, and returns the first
  successful result in the order of the standard's choice points (a greedy quantifier
  tries the longest repetition first, a lazy one the shortest).
\<close>

text \<open>\<^verbatim>\<open>\s\<close> (white space) and the line terminators that \<^verbatim>\<open>.\<close> refuses, for code units below 256.\<close>

definition isSpace :: "char \<Rightarrow> bool" where
  "isSpace c = (c = CHR 0x09 \<or> c = CHR 0x0A \<or> c = CHR 0x0B \<or> c = CHR 0x0C \<or> c = CHR 0x0D
                 \<or> c = CHR 0x20 \<or> c = CHR 0xA0)"

definition isDot :: "char \<Rightarrow> bool" where
  "isDot c = (c \<noteq> CHR 0x0A \<and> c \<noteq> CHR 0x0D)"

definition isQuote :: "char \<Rightarrow> bool" where
  "isQuote c = (c = sq \<or> c = dq)"

definition notBraceStar :: "char \<Rightarrow> bool" where
  "notBraceStar c = (c \<noteq> CHR ''{'' \<and> c \<noteq> CHR ''*'')"

type_synonym 'a matcher = "(string \<Rightarrow> 'a option) \<Rightarrow> string \<Rightarrow> 'a option"

definition lit :: "string \<Rightarrow> 'a matcher" where
  "lit l k s = (if prefix l s then k (drop (length l) s) else None)"

definition one :: "(char \<Rightarrow> bool) \<Rightarrow> 'a matcher" where
  "one P k s = (case s of [] \<Rightarrow> None | c # cs \<Rightarrow> if P c then k cs else None)"

fun starGreedy :: "(char \<Rightarrow> bool) \<Rightarrow> 'a matcher" where
  "starGreedy P k [] = k []"
| "starGreedy P k (c # cs) =
     (if P c then (case starGreedy P k cs of Some r \<Rightarrow> Some r | None \<Rightarrow> k (c # cs))
      else k (c # cs))"

definition plusGreedy :: "(char \<Rightarrow> bool) \<Rightarrow> 'a matcher" where
  "plusGreedy P k = one P (starGreedy P k)"

fun starLazy :: "(char \<Rightarrow> bool) \<Rightarrow> 'a matcher" where
  "starLazy P k [] = k []"
| "starLazy P k (c # cs) =
     (case k (c # cs) of Some r \<Rightarrow> Some r
      | None \<Rightarrow> if P c then starLazy P k cs else None)"

text \<open>The capture group \<^verbatim>\<open>([^'"]+)\<close>: a greedy repetition that hands the text it read on.\<close>

fun capStarGreedy :: "(char \<Rightarrow> bool) \<Rightarrow> (string \<Rightarrow> string \<Rightarrow> 'a option) \<Rightarrow> string \<Rightarrow> string \<Rightarrow> 'a option" where
  "capStarGreedy P k cap [] = k cap []"
| "capStarGreedy P k cap (c # cs) =
     (if P c then (case capStarGreedy P k (cap @ [c]) cs of Some r \<Rightarrow> Some r | None \<Rightarrow> k cap (c # cs))
      else k cap (c # cs))"

definition capPlusGreedy :: "(char \<Rightarrow> bool) \<Rightarrow> (string \<Rightarrow> string \<Rightarrow> 'a option) \<Rightarrow> string \<Rightarrow> 'a option" where
  "capPlusGreedy P k s = (case s of [] \<Rightarrow> None | c # cs \<Rightarrow> if P c then capStarGreedy P k [c] cs else None)"

text \<open>
  A regular expression maps the text at a position to the captured specifier and the
  text after the match, or to \<open>None\<close> when it does not match there.
\<close>

type_synonym regex = "string \<Rightarrow> (string \<times> string) option"

text \<open>The common tail \<^verbatim>\<open>\s+from\s+['"]([^'"]+)['"]\<close> of the three expressions.\<close>

definition fromTail :: regex where
  "fromTail =
     plusGreedy isSpace (lit ''from'' (plusGreedy isSpace (one isQuote
       (capPlusGreedy (\<lambda>c. \<not> isQuote c) (\<lambda>cap. one isQuote (\<lambda>rest. Some (cap, rest)))))))"

text \<open>\<^verbatim>\<open>/import\s+[^{*].*?\s+from\s+['"]([^'"]+)['"]/g\<close> (extractImports, findUsedFiles).\<close>

definition directImportRegex :: regex where
  "directImportRegex = lit ''import'' (plusGreedy isSpace (one notBraceStar (starLazy isDot fromTail)))"

text \<open>\<^verbatim>\<open>/export\s+.*?\s+from\s+['"]([^'"]+)['"]/g\<close> (extractImports, updateExportPaths).\<close>

definition exportFromRegex :: regex where
  "exportFromRegex = lit ''export'' (plusGreedy isSpace (starLazy isDot fromTail))"

text \<open>\<^verbatim>\<open>/import\s+.*?\s+from\s+['"]([^'"]+)['"]/g\<close> (updateExportPaths).\<close>

definition importFromRegex :: regex where
  "importFromRegex = lit ''import'' (plusGreedy isSpace (starLazy isDot fromTail))"

text \<open>
  A search tries every position from the left. It returns the text before the match,
  the matched text, the captured specifier and the text after the match.
\<close>

fun regexSearch :: "regex \<Rightarrow> string \<Rightarrow> string \<Rightarrow> (string \<times> string \<times> string \<times> string) option" where
  "regexSearch re pre [] =
     (case re [] of Some (cap, rest) \<Rightarrow> Some (pre, [], cap, rest) | None \<Rightarrow> None)"
| "regexSearch re pre (c # cs) =
     (case re (c # cs) of
        Some (cap, rest) \<Rightarrow> Some (pre, take (length (c # cs) - length rest) (c # cs), cap, rest)
      | None \<Rightarrow> regexSearch re (pre @ [c]) cs)"

text \<open>
  A global expression is applied again from the end of each match, both by the loop
  \<^verbatim>\<open>while ((match = re.exec(content)) !== null)\<close> and by \<^verbatim>\<open>content.replace(re, fn)\<close>. The text
  falls into pieces: text no match covers, and matches with their captured specifier.
  A match of the three expressions is never empty (they start with a keyword), so the
  scan always moves on; the guard below is what makes that visible to the definition.
\<close>

datatype piece = Gap string | Hit string string

function scan :: "regex \<Rightarrow> string \<Rightarrow> piece list" where
  "scan re s =
     (case regexSearch re [] s of
        None \<Rightarrow> [Gap s]
      | Some (pre, matched, cap, rest) \<Rightarrow>
          Gap pre # Hit matched cap # (if length rest < length s then scan re rest else [Gap rest]))"
  by pat_completeness auto
termination
  by (relation "measure (\<lambda>(re, s). length s)") auto

declare scan.simps [simp del]

text \<open>The specifiers a \<^verbatim>\<open>while (exec)\<close> loop sees, in order.\<close>

fun captures :: "piece list \<Rightarrow> string list" where
  "captures [] = []"
| "captures (Gap t # ps) = captures ps"
| "captures (Hit m cap # ps) = cap # captures ps"

fun pieceText :: "piece \<Rightarrow> string" where
  "pieceText (Gap t) = t"
| "pieceText (Hit m cap) = m"

section \<open>The file system\<close>

text \<open>
  The file system is a finite list of entries, each an absolute normalised path with
  what is stored there. The script builds every path it hands to the file system with
  \<^verbatim>\<open>path.join\<close> or \<^verbatim>\<open>path.resolve\<close>, so a lookup is by the path string. The order of the
  list is the order in which \<^verbatim>\<open>readdirSync\<close> lists a directory.
\<close>

datatype node = File string | Dir

type_synonym filesystem = "(string \<times> node) list"

datatype errno = ENOENT | EISDIR | ENOTDIR | ENOTEMPTY | EINVAL

definition existsSync :: "filesystem \<Rightarrow> string \<Rightarrow> bool" where
  "existsSync fs p = (map_of fs p \<noteq> None)"

definition readFileSync :: "filesystem \<Rightarrow> string \<Rightarrow> errno + string" where
  "readFileSync fs p =
     (case map_of fs p of
        None \<Rightarrow> Inl ENOENT
      | Some Dir \<Rightarrow> Inl EISDIR
      | Some (File content) \<Rightarrow> Inr content)"

definition writeFileSync :: "filesystem \<Rightarrow> string \<Rightarrow> string \<Rightarrow> errno + filesystem" where
  "writeFileSync fs p content =
     (case map_of fs p of
        Some Dir \<Rightarrow> Inl EISDIR
      | Some (File _) \<Rightarrow> Inr (map (\<lambda>(q, n). if q = p then (q, File content) else (q, n)) fs)
      | None \<Rightarrow>
          if map_of fs (path_dirname p) = Some Dir then Inr (fs @ [(p, File content)])
          else Inl ENOENT)"

section \<open>Resolving a module specifier\<close>

text \<open>
  The same lines resolve a relative specifier in \<^verbatim>\<open>extractImports\<close> (twice), in
  \<^verbatim>\<open>findUsedFiles\<close> and in \<^verbatim>\<open>updateExportPaths\<close> (twice): a specifier that ends in \<^verbatim>\<open>.ts\<close> is
  taken as it is; otherwise \<^verbatim>\<open>.ts\<close> is appended, and when no such file exists the path
  becomes the \<^verbatim>\<open>index.ts\<close> of the directory the specifier names. \<open>cwd\<close> is the working
  directory of the process, which \<^verbatim>\<open>path.resolve\<close> falls back on.
\<close>

definition isRelativeSpecifier :: "string \<Rightarrow> bool" where
  "isRelativeSpecifier importPath = (startsWith importPath ''.'' \<or> startsWith importPath ''/'')"

definition resolveSpecifier :: "string \<Rightarrow> filesystem \<Rightarrow> string \<Rightarrow> string \<Rightarrow> string" where
  "resolveSpecifier cwd fs dir importPath =
     (if endsWith importPath ''.ts'' then path_resolve cwd [dir, importPath]
      else let resolvedPath = path_resolve cwd [dir, importPath @ ''.ts'']
           in if \<not> existsSync fs resolvedPath then path_resolve cwd [dir, importPath, ''index.ts'']
              else resolvedPath)"

text \<open>
  \<^verbatim>\<open>extractImports\<close> and \<^verbatim>\<open>findUsedFiles\<close> keep a resolved path only when its normalised
  string starts with the normalised package root and the file exists.
\<close>

definition acceptResolved :: "filesystem \<Rightarrow> string \<Rightarrow> string \<Rightarrow> string option" where
  "acceptResolved fs packageRoot resolvedPath =
     (let normalizedResolved = path_normalize resolvedPath;
          normalizedRoot = path_normalize packageRoot
      in if startsWith normalizedResolved normalizedRoot \<and> existsSync fs normalizedResolved
         then Some normalizedResolved else None)"

definition resolveInPackage :: "string \<Rightarrow> filesystem \<Rightarrow> string \<Rightarrow> string \<Rightarrow> string \<Rightarrow> string option" where
  "resolveInPackage cwd fs packageRoot filePath importPath =
     acceptResolved fs packageRoot (resolveSpecifier cwd fs (path_dirname filePath) importPath)"

section \<open>extractImports\<close>

record import_lists =
  directImports :: "string list"
  reExports :: "string list"

text \<open>One \<^verbatim>\<open>while (exec)\<close> loop of \<^verbatim>\<open>extractImports\<close>, over the specifiers the expression captured.\<close>

fun collectImports :: "string \<Rightarrow> filesystem \<Rightarrow> string \<Rightarrow> string \<Rightarrow> string list \<Rightarrow> string list" where
  "collectImports cwd fs packageRoot filePath [] = []"
| "collectImports cwd fs packageRoot filePath (importPath # rest) =
     (if startsWith importPath ''@''
         \<or> (\<not> startsWith importPath ''.'' \<and> \<not> startsWith importPath ''/'')
      then collectImports cwd fs packageRoot filePath rest
      else (case resolveInPackage cwd fs packageRoot filePath importPath of
              Some p \<Rightarrow> p # collectImports cwd fs packageRoot filePath rest
            | None \<Rightarrow> collectImports cwd fs packageRoot filePath rest))"

definition extractImports :: "string \<Rightarrow> filesystem \<Rightarrow> string \<Rightarrow> string \<Rightarrow> errno + import_lists" where
  "extractImports cwd fs filePath packageRoot =
     (if \<not> existsSync fs filePath then Inr \<lparr>directImports = [], reExports = []\<rparr>
      else case readFileSync fs filePath of
             Inl e \<Rightarrow> Inl e
           | Inr content \<Rightarrow>
               Inr \<lparr>directImports =
                      collectImports cwd fs packageRoot filePath (captures (scan directImportRegex content)),
                    reExports =
                      collectImports cwd fs packageRoot filePath (captures (scan exportFromRegex content))\<rparr>)"

section \<open>findUsedFiles\<close>

text \<open>A JavaScript \<^verbatim>\<open>Set\<close> keeps its members in insertion order, each once.\<close>

definition setAdd :: "string \<Rightarrow> string list \<Rightarrow> string list" where
  "setAdd x xs = (if x \<in> set xs then xs else xs @ [x])"

record traversal =
  usedFiles :: "string list"
  directlyImportedFiles :: "string list"
  toProcess :: "string list"

text \<open>The loop inside the traversal that records direct imports (lines 406 to 432).\<close>

fun recordDirect :: "string \<Rightarrow> filesystem \<Rightarrow> string \<Rightarrow> string \<Rightarrow> string list \<Rightarrow> string list \<Rightarrow> string list" where
  "recordDirect cwd fs packageRoot currentFile [] direct = direct"
| "recordDirect cwd fs packageRoot currentFile (importPath # rest) direct =
     (if startsWith importPath ''.'' \<or> startsWith importPath ''/'' then
        (case resolveInPackage cwd fs packageRoot currentFile importPath of
           Some p \<Rightarrow> recordDirect cwd fs packageRoot currentFile rest (setAdd p direct)
         | None \<Rightarrow> recordDirect cwd fs packageRoot currentFile rest direct)
      else recordDirect cwd fs packageRoot currentFile rest direct)"

text \<open>The two loops over the result of \<^verbatim>\<open>extractImports\<close> (lines 441 to 455).\<close>

fun trackDirect :: "string list \<Rightarrow> traversal \<Rightarrow> traversal" where
  "trackDirect [] t = t"
| "trackDirect (importPath # rest) t =
     (let normalizedImport = path_normalize importPath;
          t1 = t\<lparr>directlyImportedFiles := setAdd normalizedImport (directlyImportedFiles t)\<rparr>
      in trackDirect rest
           (if normalizedImport \<notin> set (usedFiles t1)
            then t1\<lparr>toProcess := toProcess t1 @ [normalizedImport]\<rparr> else t1))"

fun trackReExports :: "string list \<Rightarrow> traversal \<Rightarrow> traversal" where
  "trackReExports [] t = t"
| "trackReExports (importPath # rest) t =
     (let normalizedImport = path_normalize importPath
      in trackReExports rest
           (if normalizedImport \<notin> set (usedFiles t)
            then t\<lparr>toProcess := toProcess t @ [normalizedImport]\<rparr> else t))"

text \<open>
  One pass of the \<^verbatim>\<open>while\<close> body for a file that has not been visited: the file is
  added to the used files and read, its direct imports are recorded, and what it
  references is queued.
\<close>

definition visit :: "string \<Rightarrow> filesystem \<Rightarrow> string \<Rightarrow> string \<Rightarrow> traversal \<Rightarrow> errno + traversal" where
  "visit cwd fs packageRoot currentFile t =
     (let t1 = t\<lparr>usedFiles := setAdd currentFile (usedFiles t)\<rparr>
      in case readFileSync fs currentFile of
           Inl e \<Rightarrow> Inl e
         | Inr content \<Rightarrow>
             let t2 = t1\<lparr>directlyImportedFiles :=
                          recordDirect cwd fs packageRoot currentFile
                            (captures (scan directImportRegex content)) (directlyImportedFiles t1)\<rparr>
             in case extractImports cwd fs currentFile packageRoot of
                  Inl e \<Rightarrow> Inl e
                | Inr found \<Rightarrow> Inr (trackReExports (reExports found) (trackDirect (directImports found) t2)))"

text \<open>
  The \<^verbatim>\<open>while (toProcess.length > 0)\<close> loop. Not returning is the value \<open>None\<close>; an
  exception of the file system ends the loop with \<open>Inl\<close>.
\<close>

partial_function (option) traverse :: "string \<Rightarrow> filesystem \<Rightarrow> string \<Rightarrow> traversal \<Rightarrow> (errno + traversal) option" where
  "traverse cwd fs packageRoot t =
     (case toProcess t of
        [] \<Rightarrow> Some (Inr t)
      | next_file # queue \<Rightarrow>
          let currentFile = path_normalize next_file
          in if currentFile \<in> set (usedFiles t) then traverse cwd fs packageRoot (t\<lparr>toProcess := queue\<rparr>)
             else case visit cwd fs packageRoot currentFile (t\<lparr>toProcess := queue\<rparr>) of
                    Inl e \<Rightarrow> Some (Inl e)
                  | Inr t' \<Rightarrow> traverse cwd fs packageRoot t')"

declare traverse.simps [code]

definition entryPointOf :: "string \<Rightarrow> string" where
  "entryPointOf packageRoot = path_join [packageRoot, ''src'', ''index.ts'']"

text \<open>The final \<^verbatim>\<open>usedFiles.forEach\<close>: the used files that count as re-exported only.\<close>

definition reExportedOf :: "traversal \<Rightarrow> string list" where
  "reExportedOf t =
     filter (\<lambda>file. file \<notin> set (directlyImportedFiles t)
                     \<and> \<not> endsWith file ''index.ts'' \<and> endsWith file ''.ts'')
       (usedFiles t)"

definition initialTraversal :: "string \<Rightarrow> traversal" where
  "initialTraversal packageRoot =
     \<lparr>usedFiles = [], directlyImportedFiles = [],
      toProcess = [path_normalize (entryPointOf packageRoot)]\<rparr>"

record used_result =
  resultUsedFiles :: "string list"
  resultReExportedFiles :: "string list"

definition findUsedFiles :: "string \<Rightarrow> filesystem \<Rightarrow> string \<Rightarrow> (errno + used_result) option" where
  "findUsedFiles cwd fs packageRoot =
     (if \<not> existsSync fs (entryPointOf packageRoot)
      then Some (Inr \<lparr>resultUsedFiles = [], resultReExportedFiles = []\<rparr>)
      else case traverse cwd fs packageRoot (initialTraversal packageRoot) of
             None \<Rightarrow> None
           | Some (Inl e) \<Rightarrow> Some (Inl e)
           | Some (Inr t) \<Rightarrow>
               Some (Inr \<lparr>resultUsedFiles = usedFiles t, resultReExportedFiles = reExportedOf t\<rparr>))"

section \<open>generateFolderName\<close>

text \<open>
  The hash folds \<^verbatim>\<open>(acc << 5) - acc + char.charCodeAt(0)\<close> over the name followed by the
  decimal index. The shift works on the 32-bit integer of the accumulator and yields a
  signed 32-bit integer; the subtraction and the addition are ordinary arithmetic (the
  accumulator stays far below 2^53 for any name of a file system, so no digit is lost).
\<close>

definition hashStep :: "int \<Rightarrow> char \<Rightarrow> int" where
  "hashStep acc c = sint (push_bit 5 (word_of_int acc :: 32 word)) - acc + int (of_char c)"

definition hashString :: "string \<Rightarrow> int" where
  "hashString s = foldl hashStep 0 s"

text \<open>
  \<^verbatim>\<open>Number.prototype.toString(radix)\<close> for an integer, and the decimal form that string
  concatenation gives a number. Numbers are integers here.
\<close>

definition digitChar :: "int \<Rightarrow> char" where
  "digitChar d = (if d < 10 then char_of (48 + d) else char_of (87 + d))"

function digitsRadix :: "int \<Rightarrow> int \<Rightarrow> string" where
  "digitsRadix radix n =
     (if radix < 2 \<or> n < radix then [digitChar n]
      else digitsRadix radix (n div radix) @ [digitChar (n mod radix)])"
  by pat_completeness auto
termination
  by (relation "measure (\<lambda>(radix, n). nat n)") (auto intro: int_div_less_self)

declare digitsRadix.simps [simp del]

definition toStringRadix :: "int \<Rightarrow> int \<Rightarrow> string" where
  "toStringRadix radix n =
     (if n < 0 then CHR ''-'' # digitsRadix radix (- n) else digitsRadix radix n)"

definition generateFolderName :: "string \<Rightarrow> nat \<Rightarrow> string" where
  "generateFolderName originalName index =
     ''dir-'' @ toStringRadix 36 \<bar>hashString (originalName @ toStringRadix 10 (int index))\<bar>"

section \<open>anonymizeDirectories\<close>

text \<open>
  \<^verbatim>\<open>readdirSync(dir, { withFileTypes: true })\<close>: the entries whose parent is the directory,
  each with its name and whether it is a directory.
\<close>

definition path_basename :: "string \<Rightarrow> string" where
  "path_basename p = (case pathSegs p of [] \<Rightarrow> [] | seg # segs \<Rightarrow> last (seg # segs))"

definition readdirSync :: "filesystem \<Rightarrow> string \<Rightarrow> errno + (string \<times> bool) list" where
  "readdirSync fs dir =
     (case map_of fs dir of
        None \<Rightarrow> Inl ENOENT
      | Some (File _) \<Rightarrow> Inl ENOTDIR
      | Some Dir \<Rightarrow>
          Inr (map (\<lambda>(p, n). (path_basename p, n = Dir))
                 (filter (\<lambda>(p, n). p \<noteq> dir \<and> path_dirname p = dir) fs)))"

text \<open>
  \<^verbatim>\<open>renameSync\<close> moves an entry and everything below it. The target may be an empty
  directory (for a directory) or a file (for a file), which it replaces.
\<close>

definition isBelow :: "string \<Rightarrow> string \<Rightarrow> bool" where
  "isBelow dir p = startsWith p (dir @ ''/'')"

definition moveEntries :: "string \<Rightarrow> string \<Rightarrow> filesystem \<Rightarrow> filesystem" where
  "moveEntries oldPath newPath fs =
     map (\<lambda>(p, n). if p = oldPath then (newPath, n)
                    else if isBelow oldPath p then (newPath @ drop (length oldPath) p, n)
                    else (p, n)) fs"

definition renameSync :: "filesystem \<Rightarrow> string \<Rightarrow> string \<Rightarrow> errno + filesystem" where
  "renameSync fs oldPath newPath =
     (case map_of fs oldPath of
        None \<Rightarrow> Inl ENOENT
      | Some oldNode \<Rightarrow>
          if oldPath = newPath then Inr fs
          else if map_of fs (path_dirname newPath) \<noteq> Some Dir then Inl ENOENT
          else if oldNode = Dir \<and> isBelow oldPath newPath then Inl EINVAL
          else (case map_of fs newPath of
                  None \<Rightarrow> Inr (moveEntries oldPath newPath fs)
                | Some Dir \<Rightarrow>
                    if oldNode \<noteq> Dir then Inl EISDIR
                    else if list_ex (\<lambda>(p, n). isBelow newPath p) fs then Inl ENOTEMPTY
                    else Inr (moveEntries oldPath newPath (filter (\<lambda>(p, n). p \<noteq> newPath) fs))
                | Some (File _) \<Rightarrow>
                    if oldNode = Dir then Inl ENOTDIR
                    else Inr (moveEntries oldPath newPath (filter (\<lambda>(p, n). p \<noteq> newPath) fs))))"

text \<open>
  The rename map is a JavaScript \<^verbatim>\<open>Map\<close>: \<^verbatim>\<open>set\<close> appends a new key and overwrites the value
  of a key that is there, and \<^verbatim>\<open>entries()\<close> lists the pairs in insertion order.
\<close>

type_synonym dirmap = "(string \<times> string) list"

fun mapSet :: "string \<Rightarrow> string \<Rightarrow> dirmap \<Rightarrow> dirmap" where
  "mapSet k v [] = [(k, v)]"
| "mapSet k v ((k', v') # m) = (if k' = k then (k, v) # m else (k', v') # mapSet k v m)"

definition skippedDirectory :: "string \<Rightarrow> bool" where
  "skippedDirectory name =
     (name = ''node_modules'' \<or> name = ''dist'' \<or> name = ''.git'' \<or> name = ''test'')"

text \<open>
  The \<^verbatim>\<open>for\<close> loop of \<^verbatim>\<open>anonymizeDirectories\<close> over the entries read at its start. The
  recursive call is \<open>recurse\<close>; it gets the index by value, so what it counts is lost,
  and it shares the map. An exception of the file system ends the run with \<open>Inl\<close>.
\<close>

fun anonymizeEntries ::
  "(filesystem \<Rightarrow> string \<Rightarrow> dirmap \<Rightarrow> nat \<Rightarrow> (errno + filesystem \<times> dirmap) option)
   \<Rightarrow> filesystem \<Rightarrow> string \<Rightarrow> (string \<times> bool) list \<Rightarrow> dirmap \<Rightarrow> nat
   \<Rightarrow> (errno + filesystem \<times> dirmap) option" where
  "anonymizeEntries recurse fs packageRoot [] dirMap index = Some (Inr (fs, dirMap))"
| "anonymizeEntries recurse fs packageRoot ((name, isDirectory) # entries) dirMap index =
     (if \<not> isDirectory then anonymizeEntries recurse fs packageRoot entries dirMap index
      else if skippedDirectory name then anonymizeEntries recurse fs packageRoot entries dirMap index
      else
        let fullPath = path_join [packageRoot, name]
        in case recurse fs fullPath dirMap index of
             None \<Rightarrow> None
           | Some (Inl e) \<Rightarrow> Some (Inl e)
           | Some (Inr (fs1, dirMap1)) \<Rightarrow>
               let newName = generateFolderName name index;
                   newPath = path_join [packageRoot, newName]
               in if name \<noteq> newName then
                    (case renameSync fs1 fullPath newPath of
                       Inl e \<Rightarrow> Some (Inl e)
                     | Inr fs2 \<Rightarrow>
                         anonymizeEntries recurse fs2 packageRoot entries
                           (mapSet fullPath newPath dirMap1) (index + 1))
                  else anonymizeEntries recurse fs1 packageRoot entries dirMap1 (index + 1))"

text \<open>
  \<^verbatim>\<open>anonymizeDirectories(packageRoot, dirMap, index)\<close>. The fuel bounds the depth of the
  recursion; \<open>None\<close> means that the fuel ran out.
\<close>

fun anonymizeDirectories ::
  "nat \<Rightarrow> filesystem \<Rightarrow> string \<Rightarrow> dirmap \<Rightarrow> nat \<Rightarrow> (errno + filesystem \<times> dirmap) option" where
  "anonymizeDirectories 0 fs packageRoot dirMap index = None"
| "anonymizeDirectories (Suc fuel) fs packageRoot dirMap index =
     (case readdirSync fs packageRoot of
        Inl e \<Rightarrow> Some (Inl e)
      | Inr entries \<Rightarrow>
          anonymizeEntries (anonymizeDirectories fuel) fs packageRoot entries dirMap index)"

section \<open>updateExportPaths\<close>

text \<open>
  The function that \<^verbatim>\<open>content.replace\<close> calls for each match (the two passes use the same
  lines): it returns the text that replaces the match, and whether it set \<^verbatim>\<open>modified\<close>.
\<close>

definition rewriteSpecifier ::
  "string \<Rightarrow> filesystem \<Rightarrow> string \<Rightarrow> dirmap \<Rightarrow> string \<Rightarrow> string \<Rightarrow> string \<times> bool" where
  "rewriteSpecifier cwd fs filePath dirMap matched importPath =
     (if \<not> startsWith importPath ''.'' \<and> \<not> startsWith importPath ''/'' then (matched, False)
      else
        let dir = path_dirname filePath;
            resolvedPath = resolveSpecifier cwd fs dir importPath
        in case find (\<lambda>(oldDir, newDir). startsWith resolvedPath oldDir) dirMap of
             None \<Rightarrow> (matched, False)
           | Some (oldDir, newDir) \<Rightarrow>
               let relativePath = path_relative cwd oldDir resolvedPath;
                   newResolvedPath = path_join [newDir, relativePath];
                   newRelativePath = backslashesToSlashes (path_relative cwd dir newResolvedPath);
                   newImportPath =
                     (if endsWith importPath ''.ts'' then newRelativePath
                      else if endsWith importPath ''/index'' \<or> endsWith importPath ''/''
                      then stripSuffix ''.ts'' (stripSuffix ''/index.ts'' newRelativePath)
                      else stripSuffix ''.ts'' newRelativePath);
                   newImportPath' =
                     (if \<not> startsWith newImportPath ''.'' then ''./'' @ newImportPath
                      else newImportPath)
               in (replaceFirst matched importPath newImportPath', True))"

text \<open>\<^verbatim>\<open>content.replace(re, fn)\<close> over the pieces of the content, with the flag \<^verbatim>\<open>modified\<close>.\<close>

fun replacePieces :: "(string \<Rightarrow> string \<Rightarrow> string \<times> bool) \<Rightarrow> piece list \<Rightarrow> string \<times> bool" where
  "replacePieces f [] = ([], False)"
| "replacePieces f (Gap t # ps) = (case replacePieces f ps of (out, m) \<Rightarrow> (t @ out, m))"
| "replacePieces f (Hit matched cap # ps) =
     (case f matched cap of (r, m1) \<Rightarrow>
        case replacePieces f ps of (out, m2) \<Rightarrow> (r @ out, m1 \<or> m2))"

definition rewritePass ::
  "regex \<Rightarrow> string \<Rightarrow> filesystem \<Rightarrow> string \<Rightarrow> dirmap \<Rightarrow> string \<Rightarrow> string \<times> bool" where
  "rewritePass re cwd fs filePath dirMap content =
     replacePieces (rewriteSpecifier cwd fs filePath dirMap) (scan re content)"

text \<open>
  \<^verbatim>\<open>updateExportPaths(filePath, dirMap)\<close> returns the file system and whether it wrote the
  file.
\<close>

definition updateExportPaths ::
  "string \<Rightarrow> filesystem \<Rightarrow> string \<Rightarrow> dirmap \<Rightarrow> errno + filesystem \<times> bool" where
  "updateExportPaths cwd fs filePath dirMap =
     (if \<not> existsSync fs filePath then Inr (fs, False)
      else case readFileSync fs filePath of
             Inl e \<Rightarrow> Inl e
           | Inr content \<Rightarrow>
               (case rewritePass exportFromRegex cwd fs filePath dirMap content of
                  (content1, modified1) \<Rightarrow>
                    case rewritePass importFromRegex cwd fs filePath dirMap content1 of
                      (content2, modified2) \<Rightarrow>
                        if modified1 \<or> modified2 then
                          (case writeFileSync fs filePath content2 of
                             Inl e \<Rightarrow> Inl e
                           | Inr fs' \<Rightarrow> Inr (fs', True))
                        else Inr (fs, False)))"

section \<open>main: the checks of the argument\<close>

text \<open>
  \<^verbatim>\<open>main\<close> first checks its argument (lines 680 to 705) and leaves the process with
  status 1 when the check fails. What it does afterwards (lines 707 to 942) is the
  parameter \<open>anonymize\<close>, which gets the absolute package path and the state so far. The
  state records the file system, what was printed with \<^verbatim>\<open>console.error\<close>, and every call
  made to the file system.
\<close>

datatype fs_call = ExistsSyncCall string | StatSyncCall string | MutatingCall string

record process_state =
  fileSystem :: filesystem
  errorOutput :: "string list"
  fsCalls :: "fs_call list"

datatype outcome = Exit nat process_state | Completed process_state

definition argument :: "string list \<Rightarrow> nat \<Rightarrow> string option" where
  "argument argv i = (if i < length argv then Some (argv ! i) else None)"

definition main ::
  "(string \<Rightarrow> process_state \<Rightarrow> outcome) \<Rightarrow> string \<Rightarrow> string list \<Rightarrow> filesystem \<Rightarrow> outcome" where
  "main anonymize cwd argv fs =
     (let st = \<lparr>fileSystem = fs, errorOutput = [], fsCalls = []\<rparr>;
          packagePath = argument argv 2
      in if packagePath = None \<or> packagePath = Some [] then
           Exit 1 (st\<lparr>errorOutput :=
             [''Usage: bun tools/scripts/anonymize-package.js <package-path>'',
              ''Example: bun tools/scripts/anonymize-package.js packages/calculators/income-tax'']\<rparr>)
         else
           let absolutePackagePath = path_resolve cwd [the packagePath];
               st1 = st\<lparr>fsCalls := fsCalls st @ [ExistsSyncCall absolutePackagePath]\<rparr>
           in if \<not> existsSync fs absolutePackagePath then
                Exit 1 (st1\<lparr>errorOutput :=
                  [''Error: Package path does not exist: '' @ absolutePackagePath]\<rparr>)
              else
                let st2 = st1\<lparr>fsCalls := fsCalls st1 @ [StatSyncCall absolutePackagePath]\<rparr>
                in if map_of fs absolutePackagePath \<noteq> Some Dir then
                     Exit 1 (st2\<lparr>errorOutput :=
                       [''Error: Package path is not a directory: '' @ absolutePackagePath]\<rparr>)
                   else anonymize absolutePackagePath st2)"

section \<open>Auxiliary notions and example inputs\<close>

text \<open>A match of a regular expression that is never empty lets a scan move on.\<close>

definition consuming :: "regex \<Rightarrow> bool" where
  "consuming re = (\<forall>s cap rest. re s = Some (cap, rest) \<longrightarrow> (\<exists>m. m \<noteq> [] \<and> s = m @ rest))"

text \<open>A continuation of \<^verbatim>\<open>main\<close> that empties the file system.\<close>

definition mutatingContinuation :: "string \<Rightarrow> process_state \<Rightarrow> outcome" where
  "mutatingContinuation p st =
     Completed (st\<lparr>fileSystem := [], fsCalls := fsCalls st @ [MutatingCall p]\<rparr>)"

text \<open>
  A map that renames the directory \<^verbatim>\<open>a\<close>. A file whose import has an external specifier
  that holds the word \<^verbatim>\<open>export\<close> and, after it, the text of the relative specifier that a
  re-export on the same line has. And a file in the directory \<^verbatim>\<open>a\<close> with a side-effect import
  and, on the same line, an import of the directory itself.
\<close>

definition exampleDirMap :: dirmap where
  "exampleDirMap = [(''/p/src/a'', ''/p/src/q'')]"

definition quotedKeywordContent :: string where
  "quotedKeywordContent =
     ''import y from '' @ quoted ''export ./a/x'' @ ''; export * from '' @ quoted ''./a/x''"

definition quotedKeywordFs :: filesystem where
  "quotedKeywordFs =
     [(''/p'', Dir), (''/p/src'', Dir), (''/p/src/a'', Dir),
      (''/p/src/a/x.ts'', File ''export const x = 1;''),
      (''/p/src/t.ts'', File quotedKeywordContent)]"

definition sideEffectContent :: string where
  "sideEffectContent = ''import '' @ quoted ''zone.js'' @ ''; import x from '' @ quoted ''.''"

definition sideEffectFs :: filesystem where
  "sideEffectFs =
     [(''/p'', Dir), (''/p/src'', Dir), (''/p/src/a'', Dir),
      (''/p/src/a/index.ts'', File ''export const x = 1;''),
      (''/p/src/a/t.ts'', File sideEffectContent)]"

text \<open>A path segment that normalisation keeps, and the invariant of the traversal.\<close>

definition regularSeg :: "string \<Rightarrow> bool" where
  "regularSeg seg = (seg \<noteq> [] \<and> seg \<noteq> ''.'' \<and> seg \<noteq> ''..'')"

definition allTs :: "traversal \<Rightarrow> bool" where
  "allTs t = (\<forall>f\<in>set (usedFiles t) \<union> set (toProcess t). endsWith f ''.ts'')"

text \<open>
  A package whose entry file re-exports a directory and imports a file by its default
  export; the index file of the directory re-exports an implementation file and,
  closing a cycle, the entry file.
\<close>

definition cyclicFs :: filesystem where
  "cyclicFs =
     [(''/p'', Dir), (''/p/src'', Dir), (''/p/src/a'', Dir),
      (''/p/src/index.ts'',
         File (''export * from '' @ quoted ''./a'' @ [CHR 0x0A]
               @ ''import d from '' @ quoted ''./d'')),
      (''/p/src/a/index.ts'',
         File (''export * from '' @ quoted ''./impl'' @ [CHR 0x0A]
               @ ''export * from '' @ quoted ''../index'')),
      (''/p/src/a/impl.ts'', File ''export const x = 1;''),
      (''/p/src/d.ts'', File ''export default 1;'')]"

text \<open>A package whose entry file re-exports a directory that holds only its index file.\<close>

definition barrelFs :: filesystem where
  "barrelFs =
     [(''/p'', Dir), (''/p/src'', Dir), (''/p/src/a'', Dir),
      (''/p/src/index.ts'', File (''export * from '' @ quoted ''./a'')),
      (''/p/src/a/index.ts'', File ''export const x = 1;'')]"

text \<open>
  The tree of the specification's example before the directories are renamed:
  \<^verbatim>\<open>src/index\<close> imports \<^verbatim>\<open>src/a/util\<close>, which re-exports \<^verbatim>\<open>src/a/b/helper\<close>.
\<close>

definition treeBefore :: filesystem where
  "treeBefore =
     [(''/p'', Dir), (''/p/src'', Dir), (''/p/src/a'', Dir), (''/p/src/a/b'', Dir),
      (''/p/src/index.ts'', File (''import util from '' @ quoted ''./a/util'')),
      (''/p/src/a/util.ts'', File (''export * from '' @ quoted ''./b/helper'')),
      (''/p/src/a/b/helper.ts'', File ''export const h = 1;'')]"


text \<open>
  The normal form of a list of segments: \<^verbatim>\<open>..\<close> segments first (only when the path may
  climb above its root), then segments that normalisation keeps.
\<close>

fun normalForm :: "bool \<Rightarrow> string list \<Rightarrow> bool" where
  "normalForm al [] = True"
| "normalForm al (x # xs) =
     (if x = ''..'' then al \<and> normalForm al xs else regularSeg x \<and> list_all regularSeg xs)"

text \<open>
  A package in which \<^verbatim>\<open>./a\<close> names both a file and a directory with an index file,
  \<^verbatim>\<open>./b\<close> names a directory with an index file, and two files have other extensions.
\<close>

definition candidatesFs :: filesystem where
  "candidatesFs =
     [(''/p'', Dir), (''/p/src'', Dir), (''/p/src/a'', Dir), (''/p/src/b'', Dir),
      (''/p/src/index.ts'', File []),
      (''/p/src/a.ts'', File []), (''/p/src/a/index.ts'', File []),
      (''/p/src/b/index.ts'', File []),
      (''/p/src/data.json'', File []),
      (''/p/src/old.ts.ts'', File [])]"

text \<open>
  A path lies within a directory when it is the directory or continues its path after
  a separator. And a package \<^verbatim>\<open>/p\<close> beside a directory \<^verbatim>\<open>/pq\<close>, whose entry file imports a
  file of that directory.
\<close>

definition withinRoot :: "string \<Rightarrow> string \<Rightarrow> bool" where
  "withinRoot root p =
     (p = root \<or> startsWith p (if endsWith root ''/'' then root else root @ ''/''))"

definition escapingFs :: filesystem where
  "escapingFs =
     [(''/p'', Dir), (''/p/src'', Dir), (''/pq'', Dir),
      (''/p/src/index.ts'', File (''import x from '' @ quoted ''../../pq/x'')),
      (''/pq/x.ts'', File ''export default 1;'')]"


text \<open>
  The tree of the specification's example after \<^verbatim>\<open>src/a\<close> became \<^verbatim>\<open>src/x7k\<close> and
  \<^verbatim>\<open>src/a/b\<close> became \<^verbatim>\<open>src/x7k/m2p\<close>, with the rename map of the example; and the same
  tree as \<^verbatim>\<open>anonymizeDirectories\<close> leaves it, with the map it returns.
\<close>

definition treeAfter :: filesystem where
  "treeAfter =
     [(''/p'', Dir), (''/p/src'', Dir), (''/p/src/x7k'', Dir), (''/p/src/x7k/m2p'', Dir),
      (''/p/src/index.ts'', File (''import util from '' @ quoted ''./a/util'')),
      (''/p/src/x7k/util.ts'', File (''export * from '' @ quoted ''./b/helper'')),
      (''/p/src/x7k/m2p/helper.ts'', File ''export const h = 1;'')]"

definition examplePlan :: dirmap where
  "examplePlan = [(''/p/src/a'', ''/p/src/x7k''), (''/p/src/a/b'', ''/p/src/x7k/m2p'')]"

definition treeAnonymized :: filesystem where
  "treeAnonymized =
     [(''/p'', Dir), (''/p/src'', Dir), (''/p/src/dir-2cv'', Dir),
      (''/p/src/dir-2cv/dir-2dq'', Dir),
      (''/p/src/index.ts'', File (''import util from '' @ quoted ''./a/util'')),
      (''/p/src/dir-2cv/util.ts'', File (''export * from '' @ quoted ''./b/helper'')),
      (''/p/src/dir-2cv/dir-2dq/helper.ts'', File ''export const h = 1;'')]"

definition anonymizedPlan :: dirmap where
  "anonymizedPlan = [(''/p/src/a/b'', ''/p/src/a/dir-2dq''), (''/p/src/a'', ''/p/src/dir-2cv'')]"

text \<open>
  A file that re-exports the directory \<^verbatim>\<open>shared\<close> through its index file, before and after
  \<^verbatim>\<open>shared\<close> became \<^verbatim>\<open>q9z\<close>.
\<close>

definition sharedFs :: filesystem where
  "sharedFs =
     [(''/p'', Dir), (''/p/src'', Dir), (''/p/src/shared'', Dir), (''/p/src/feature'', Dir),
      (''/p/src/shared/index.ts'', File ''export const s = 1;''),
      (''/p/src/feature/f.ts'', File (''export * from '' @ quoted ''../shared''))]"

definition sharedFsRenamed :: filesystem where
  "sharedFsRenamed =
     [(''/p'', Dir), (''/p/src'', Dir), (''/p/src/q9z'', Dir), (''/p/src/feature'', Dir),
      (''/p/src/q9z/index.ts'', File ''export const s = 1;''),
      (''/p/src/feature/f.ts'', File (''export * from '' @ quoted ''../shared''))]"

definition sharedPlan :: dirmap where
  "sharedPlan = [(''/p/src/shared'', ''/p/src/q9z'')]"

text \<open>
  A package with a directory \<^verbatim>\<open>calc\<close> beside a file \<^verbatim>\<open>calculator.ts\<close> that the entry file
  re-exports, before and after \<^verbatim>\<open>anonymizeDirectories\<close>; and a package with a directory
  \<^verbatim>\<open>util\<close> beside a directory \<^verbatim>\<open>utils\<close> whose index file the entry file re-exports.
\<close>

definition calcFs :: filesystem where
  "calcFs =
     [(''/p'', Dir), (''/p/src'', Dir), (''/p/src/calc'', Dir),
      (''/p/src/calc/sum.ts'', File ''export const sum = 1;''),
      (''/p/src/calculator.ts'', File ''export const c = 1;''),
      (''/p/src/index.ts'', File (''export * from '' @ quoted ''./calculator''))]"

definition calcFsAnonymized :: filesystem where
  "calcFsAnonymized =
     [(''/p'', Dir), (''/p/src'', Dir), (''/p/src/dir-1k7uyj'', Dir),
      (''/p/src/dir-1k7uyj/sum.ts'', File ''export const sum = 1;''),
      (''/p/src/calculator.ts'', File ''export const c = 1;''),
      (''/p/src/index.ts'', File (''export * from '' @ quoted ''./calculator''))]"

definition siblingFs :: filesystem where
  "siblingFs =
     [(''/p'', Dir), (''/p/src'', Dir), (''/p/src/util'', Dir), (''/p/src/utils'', Dir),
      (''/p/src/util/u.ts'', File ''export const u = 1;''),
      (''/p/src/utils/index.ts'', File ''export const v = 1;''),
      (''/p/src/index.ts'', File (''export * from '' @ quoted ''./utils''))]"


text \<open>
  The directory tree of a file system: its paths in order, each with whether it is a
  directory; file contents are left out. And the result of a run of
  \<^verbatim>\<open>anonymizeDirectories\<close> with the tree of the file system it leaves.
\<close>

definition directoryTree :: "filesystem \<Rightarrow> (string \<times> bool) list" where
  "directoryTree fs = map (\<lambda>(p, n). (p, n = Dir)) fs"

definition planOutcome :: "errno + filesystem \<times> dirmap \<Rightarrow> errno + (string \<times> bool) list \<times> dirmap" where
  "planOutcome r = (case r of Inl e \<Rightarrow> Inl e | Inr (fs, dirMap) \<Rightarrow> Inr (directoryTree fs, dirMap))"

text \<open>The tree of the specification's example with other file contents.\<close>

definition treeStubbed :: filesystem where
  "treeStubbed =
     [(''/p'', Dir), (''/p/src'', Dir), (''/p/src/a'', Dir), (''/p/src/a/b'', Dir),
      (''/p/src/index.ts'', File ''export {};''),
      (''/p/src/a/util.ts'', File ''export {};''),
      (''/p/src/a/b/helper.ts'', File ''export {};'')]"


section \<open>Regular expressions: what a match looks like\<close>

lemma lit_SomeD: "lit l k s = Some r \<Longrightarrow> \<exists>s'. s = l @ s' \<and> k s' = Some r"
  by (auto simp: lit_def prefix_def split: if_splits)

lemma one_SomeD: "one P k s = Some r \<Longrightarrow> \<exists>c s'. s = c # s' \<and> P c \<and> k s' = Some r"
  by (auto simp: one_def split: list.splits if_splits)

lemma starGreedy_SomeD:
  "starGreedy P k s = Some r \<Longrightarrow> \<exists>w s'. s = w @ s' \<and> (\<forall>c\<in>set w. P c) \<and> k s' = Some r"
proof (induction s)
  case Nil
  then show ?case by auto
next
  case (Cons c cs)
  show ?case
  proof (cases "P c \<and> starGreedy P k cs \<noteq> None")
    case True
    with Cons.prems have "starGreedy P k cs = Some r" by (auto split: option.splits)
    from Cons.IH[OF this] obtain w s' where "cs = w @ s'" "\<forall>c\<in>set w. P c" "k s' = Some r" by blast
    with True have "c # cs = (c # w) @ s' \<and> (\<forall>x\<in>set (c # w). P x) \<and> k s' = Some r" by simp
    then show ?thesis by blast
  next
    case False
    with Cons.prems have "k (c # cs) = Some r" by (auto split: option.splits if_splits)
    then have "c # cs = [] @ (c # cs) \<and> (\<forall>x\<in>set []. P x) \<and> k (c # cs) = Some r" by simp
    then show ?thesis by blast
  qed
qed

lemma plusGreedy_SomeD:
  "plusGreedy P k s = Some r \<Longrightarrow> \<exists>w s'. s = w @ s' \<and> w \<noteq> [] \<and> (\<forall>c\<in>set w. P c) \<and> k s' = Some r"
proof -
  assume "plusGreedy P k s = Some r"
  then obtain c s1 where 1: "s = c # s1" "P c" "starGreedy P k s1 = Some r"
    unfolding plusGreedy_def by (blast dest: one_SomeD)
  from starGreedy_SomeD[OF 1(3)] obtain w s' where "s1 = w @ s'" "\<forall>c\<in>set w. P c" "k s' = Some r" by blast
  with 1 have "s = (c # w) @ s' \<and> c # w \<noteq> [] \<and> (\<forall>x\<in>set (c # w). P x) \<and> k s' = Some r" by simp
  then show ?thesis by blast
qed

lemma starLazy_SomeD:
  "starLazy P k s = Some r \<Longrightarrow> \<exists>w s'. s = w @ s' \<and> (\<forall>c\<in>set w. P c) \<and> k s' = Some r"
proof (induction s)
  case Nil
  then show ?case by auto
next
  case (Cons c cs)
  show ?case
  proof (cases "k (c # cs)")
    case (Some a)
    with Cons.prems have "k (c # cs) = Some r" by simp
    then have "c # cs = [] @ (c # cs) \<and> (\<forall>x\<in>set []. P x) \<and> k (c # cs) = Some r" by simp
    then show ?thesis by blast
  next
    case None
    with Cons.prems have pc: "P c" and "starLazy P k cs = Some r" by (auto split: if_splits)
    from Cons.IH[OF this(2)] obtain w s' where "cs = w @ s'" "\<forall>c\<in>set w. P c" "k s' = Some r" by blast
    with pc have "c # cs = (c # w) @ s' \<and> (\<forall>x\<in>set (c # w). P x) \<and> k s' = Some r" by simp
    then show ?thesis by blast
  qed
qed

lemma capStarGreedy_SomeD:
  "capStarGreedy P k cap s = Some r \<Longrightarrow>
     \<exists>w s'. s = w @ s' \<and> (\<forall>c\<in>set w. P c) \<and> k (cap @ w) s' = Some r"
proof (induction s arbitrary: cap)
  case Nil
  then show ?case by auto
next
  case (Cons c cs)
  show ?case
  proof (cases "P c \<and> capStarGreedy P k (cap @ [c]) cs \<noteq> None")
    case True
    with Cons.prems have "capStarGreedy P k (cap @ [c]) cs = Some r" by (auto split: option.splits)
    from Cons.IH[OF this] obtain w s' where "cs = w @ s'" "\<forall>c\<in>set w. P c" "k ((cap @ [c]) @ w) s' = Some r" by blast
    with True have "c # cs = (c # w) @ s' \<and> (\<forall>x\<in>set (c # w). P x) \<and> k (cap @ c # w) s' = Some r" by simp
    then show ?thesis by blast
  next
    case False
    with Cons.prems have "k cap (c # cs) = Some r" by (auto split: option.splits if_splits)
    then have "c # cs = [] @ (c # cs) \<and> (\<forall>x\<in>set []. P x) \<and> k (cap @ []) (c # cs) = Some r" by simp
    then show ?thesis by blast
  qed
qed

lemma capPlusGreedy_SomeD:
  "capPlusGreedy P k s = Some r \<Longrightarrow>
     \<exists>w s'. s = w @ s' \<and> w \<noteq> [] \<and> (\<forall>c\<in>set w. P c) \<and> k w s' = Some r"
proof -
  assume a: "capPlusGreedy P k s = Some r"
  then obtain c s1 where 1: "s = c # s1" "P c" "capStarGreedy P k [c] s1 = Some r"
    by (auto simp: capPlusGreedy_def split: list.splits if_splits)
  from capStarGreedy_SomeD[OF 1(3)] obtain w s' where "s1 = w @ s'" "\<forall>c\<in>set w. P c" "k ([c] @ w) s' = Some r" by blast
  with 1 have "s = (c # w) @ s' \<and> c # w \<noteq> [] \<and> (\<forall>x\<in>set (c # w). P x) \<and> k (c # w) s' = Some r" by simp
  then show ?thesis by blast
qed

text \<open>What a match of the common tail looks like.\<close>

lemma fromTail_SomeD:
  assumes "fromTail s = Some (cap, rest)"
  shows "\<exists>w1 w2 q1 q2. s = w1 @ ''from'' @ w2 @ q1 # cap @ q2 # rest
           \<and> w1 \<noteq> [] \<and> (\<forall>c\<in>set w1. isSpace c) \<and> w2 \<noteq> [] \<and> (\<forall>c\<in>set w2. isSpace c)
           \<and> isQuote q1 \<and> isQuote q2 \<and> cap \<noteq> [] \<and> (\<forall>c\<in>set cap. \<not> isQuote c)"
proof -
  from assms obtain w1 s1 where 1: "s = w1 @ s1" "w1 \<noteq> []" "\<forall>c\<in>set w1. isSpace c"
    and k1: "lit ''from'' (plusGreedy isSpace (one isQuote
       (capPlusGreedy (\<lambda>c. \<not> isQuote c) (\<lambda>cap. one isQuote (\<lambda>rest. Some (cap, rest)))))) s1 = Some (cap, rest)"
    unfolding fromTail_def by (blast dest: plusGreedy_SomeD)
  from lit_SomeD[OF k1] obtain s2 where 2: "s1 = ''from'' @ s2"
    and k2: "plusGreedy isSpace (one isQuote
       (capPlusGreedy (\<lambda>c. \<not> isQuote c) (\<lambda>cap. one isQuote (\<lambda>rest. Some (cap, rest))))) s2 = Some (cap, rest)"
    by blast
  from plusGreedy_SomeD[OF k2] obtain w2 s3 where 3: "s2 = w2 @ s3" "w2 \<noteq> []" "\<forall>c\<in>set w2. isSpace c"
    and k3: "one isQuote
       (capPlusGreedy (\<lambda>c. \<not> isQuote c) (\<lambda>cap. one isQuote (\<lambda>rest. Some (cap, rest)))) s3 = Some (cap, rest)"
    by blast
  from one_SomeD[OF k3] obtain q1 s4 where 4: "s3 = q1 # s4" "isQuote q1"
    and k4: "capPlusGreedy (\<lambda>c. \<not> isQuote c) (\<lambda>cap. one isQuote (\<lambda>rest. Some (cap, rest))) s4 = Some (cap, rest)"
    by blast
  from capPlusGreedy_SomeD[OF k4] obtain w s5 where 5: "s4 = w @ s5" "w \<noteq> []" "\<forall>c\<in>set w. \<not> isQuote c"
    and k5: "one isQuote (\<lambda>rest. Some (w, rest)) s5 = Some (cap, rest)"
    by blast
  from one_SomeD[OF k5] obtain q2 s6 where 6: "s5 = q2 # s6" "isQuote q2" "Some (w, s6) = Some (cap, rest)"
    by blast
  then have "w = cap" "s6 = rest" by auto
  with 1 2 3 4 5 6 show ?thesis by auto
qed


lemma fromTail_suffix:
  assumes "fromTail s = Some (cap, rest)"
  shows "\<exists>t. s = t @ rest"
proof -
  from fromTail_SomeD[OF assms] obtain w1 w2 q1 q2
    where "s = w1 @ ''from'' @ w2 @ q1 # cap @ q2 # rest" by blast
  then have "s = (w1 @ ''from'' @ w2 @ q1 # cap @ [q2]) @ rest" by simp
  then show ?thesis by blast
qed

lemma directImportRegex_suffix:
  assumes "directImportRegex s = Some (cap, rest)"
  shows "\<exists>m. s = ''import'' @ m @ rest"
proof -
  from assms obtain s1 where 1: "s = ''import'' @ s1"
    and k1: "plusGreedy isSpace (one notBraceStar (starLazy isDot fromTail)) s1 = Some (cap, rest)"
    unfolding directImportRegex_def by (blast dest: lit_SomeD)
  from plusGreedy_SomeD[OF k1] obtain w1 s2 where 2: "s1 = w1 @ s2"
    and k2: "one notBraceStar (starLazy isDot fromTail) s2 = Some (cap, rest)" by blast
  from one_SomeD[OF k2] obtain c s3 where 3: "s2 = c # s3"
    and k3: "starLazy isDot fromTail s3 = Some (cap, rest)" by blast
  from starLazy_SomeD[OF k3] obtain w2 s4 where 4: "s3 = w2 @ s4"
    and k4: "fromTail s4 = Some (cap, rest)" by blast
  from fromTail_suffix[OF k4] obtain t where 5: "s4 = t @ rest" by blast
  from 1 2 3 4 5 have "s = ''import'' @ (w1 @ c # w2 @ t) @ rest" by simp
  then show ?thesis by blast
qed

lemma keywordRegex_suffix:
  assumes "lit kw (plusGreedy isSpace (starLazy isDot fromTail)) s = Some (cap, rest)"
  shows "\<exists>m. s = kw @ m @ rest \<and> m \<noteq> []"
proof -
  from assms obtain s1 where 1: "s = kw @ s1"
    and k1: "plusGreedy isSpace (starLazy isDot fromTail) s1 = Some (cap, rest)"
    by (blast dest: lit_SomeD)
  from plusGreedy_SomeD[OF k1] obtain w1 s2 where 2: "s1 = w1 @ s2" "w1 \<noteq> []"
    and k2: "starLazy isDot fromTail s2 = Some (cap, rest)" by blast
  from starLazy_SomeD[OF k2] obtain w2 s4 where 4: "s2 = w2 @ s4"
    and k4: "fromTail s4 = Some (cap, rest)" by blast
  from fromTail_suffix[OF k4] obtain t where 5: "s4 = t @ rest" by blast
  from 1 2 4 5 have "s = kw @ (w1 @ w2 @ t) @ rest \<and> w1 @ w2 @ t \<noteq> []" by simp
  then show ?thesis by blast
qed

lemma exportFromRegex_suffix:
  "exportFromRegex s = Some (cap, rest) \<Longrightarrow> \<exists>m. s = ''export'' @ m @ rest"
  unfolding exportFromRegex_def by (blast dest: keywordRegex_suffix)

lemma importFromRegex_suffix:
  "importFromRegex s = Some (cap, rest) \<Longrightarrow> \<exists>m. s = ''import'' @ m @ rest"
  unfolding importFromRegex_def by (blast dest: keywordRegex_suffix)

lemma consuming_regexes:
  "consuming directImportRegex" "consuming exportFromRegex" "consuming importFromRegex"
  unfolding consuming_def
  by (fastforce dest: directImportRegex_suffix exportFromRegex_suffix importFromRegex_suffix)+

lemma regexSearch_split:
  assumes "consuming re" "regexSearch re pre s = Some (b, m, cap, rest)"
  shows "pre @ s = b @ m @ rest \<and> m \<noteq> [] \<and> re (m @ rest) = Some (cap, rest)"
  using assms(2)
proof (induction s arbitrary: pre)
  case Nil
  then obtain c r where "re [] = Some (c, r)" by (auto split: option.splits)
  with assms(1) show ?case unfolding consuming_def by fastforce
next
  case (Cons c cs)
  show ?case
  proof (cases "re (c # cs)")
    case None
    with Cons.prems have "regexSearch re (pre @ [c]) cs = Some (b, m, cap, rest)" by simp
    from Cons.IH[OF this] show ?thesis by simp
  next
    case (Some a)
    obtain cap' rest' where a: "a = (cap', rest')" by (cases a)
    with Some Cons.prems have eq: "b = pre" "m = take (length (c # cs) - length rest') (c # cs)"
      "cap = cap'" "rest = rest'" by auto
    from assms(1) Some a obtain m' where m': "m' \<noteq> []" "c # cs = m' @ rest'"
      unfolding consuming_def by blast
    then have "take (length (c # cs) - length rest') (c # cs) = m'" by simp
    with eq m' Some a show ?thesis by simp
  qed
qed

lemma scan_concat:
  assumes "consuming re"
  shows "concat (map pieceText (scan re s)) = s"
proof (induction "length s" arbitrary: s rule: less_induct)
  case less
  show ?case
  proof (cases "regexSearch re [] s")
    case None
    then show ?thesis by (simp add: scan.simps)
  next
    case (Some a)
    obtain b m cap rest where a: "a = (b, m, cap, rest)" by (cases a)
    from regexSearch_split[OF assms, of "[]" s b m cap rest] Some a
    have sp: "s = b @ m @ rest" "m \<noteq> []" by auto
    then have lt: "length rest < length s" by (cases m) auto
    from less[OF lt] have "concat (map pieceText (scan re rest)) = rest" .
    with Some a lt sp show ?thesis by (subst scan.simps) simp
  qed
qed

section \<open>External specifiers\<close>

lemma replacePieces_fst:
  "fst (replacePieces f ps) =
     concat (map (\<lambda>pc. case pc of Gap t \<Rightarrow> t | Hit matched cap \<Rightarrow> fst (f matched cap)) ps)"
proof (induction ps)
  case Nil
  then show ?case by simp
next
  case (Cons pc ps)
  then show ?case by (cases pc) (auto split: prod.splits)
qed

lemma rewriteSpecifier_external:
  "\<not> isRelativeSpecifier importPath \<Longrightarrow>
     rewriteSpecifier cwd fs filePath dirMap matched importPath = (matched, False)"
  by (simp add: rewriteSpecifier_def isRelativeSpecifier_def)

lemma rewriteSpecifier_unmodified:
  "\<not> snd (rewriteSpecifier cwd fs filePath dirMap matched importPath) \<Longrightarrow>
     fst (rewriteSpecifier cwd fs filePath dirMap matched importPath) = matched"
  by (auto simp: rewriteSpecifier_def Let_def split: if_splits option.splits prod.splits)

lemma replacePieces_unmodified:
  assumes "\<And>m c. \<not> snd (f m c) \<Longrightarrow> fst (f m c) = m"
  shows "\<not> snd (replacePieces f ps) \<Longrightarrow> fst (replacePieces f ps) = concat (map pieceText ps)"
proof (induction ps)
  case Nil
  then show ?case by simp
next
  case (Cons pc ps)
  show ?case
  proof (cases pc)
    case (Gap t)
    with Cons show ?thesis by (auto split: prod.splits)
  next
    case (Hit m c)
    with Cons.prems have 1: "\<not> snd (f m c)" and 2: "\<not> snd (replacePieces f ps)"
      by (auto split: prod.splits)
    from assms[OF 1] Cons.IH[OF 2] Hit show ?thesis by (auto split: prod.splits)
  qed
qed

lemma rewritePass_unmodified:
  assumes "consuming re" "\<not> snd (rewritePass re cwd fs filePath dirMap content)"
  shows "fst (rewritePass re cwd fs filePath dirMap content) = content"
  using replacePieces_unmodified[of "rewriteSpecifier cwd fs filePath dirMap" "scan re content"]
    rewriteSpecifier_unmodified assms
  by (simp add: rewritePass_def scan_concat)

lemma map_of_rewrite:
  "map_of (map (\<lambda>(q, n). if q = p then (q, v) else (q, n)) fs) p =
     (case map_of fs p of None \<Rightarrow> None | Some _ \<Rightarrow> Some v)"
  by (induction fs) auto

lemma read_after_write:
  "writeFileSync fs p content = Inr fs' \<Longrightarrow> readFileSync fs' p = Inr content"
  by (auto simp: writeFileSync_def readFileSync_def map_of_rewrite map_add_def
      split: option.splits node.splits if_splits)

lemma updateExportPaths_content:
  assumes "updateExportPaths cwd fs filePath dirMap = Inr (fs', wrote)"
    and "readFileSync fs filePath = Inr content"
  shows "readFileSync fs' filePath =
           Inr (fst (rewritePass importFromRegex cwd fs filePath dirMap
                  (fst (rewritePass exportFromRegex cwd fs filePath dirMap content))))
         \<and> (\<not> wrote \<longrightarrow> fs' = fs)"
proof -
  from assms(2) have ex: "existsSync fs filePath"
    by (auto simp: readFileSync_def existsSync_def split: option.splits)
  obtain c1 m1 where p1: "rewritePass exportFromRegex cwd fs filePath dirMap content = (c1, m1)"
    by (cases "rewritePass exportFromRegex cwd fs filePath dirMap content")
  obtain c2 m2 where p2: "rewritePass importFromRegex cwd fs filePath dirMap c1 = (c2, m2)"
    by (cases "rewritePass importFromRegex cwd fs filePath dirMap c1")
  show ?thesis
  proof (cases "m1 \<or> m2")
    case True
    with assms ex p1 p2 obtain "writeFileSync fs filePath c2 = Inr fs'" "wrote"
      by (auto simp: updateExportPaths_def split: sum.splits)
    with read_after_write p1 p2 show ?thesis by simp
  next
    case False
    with assms ex p1 p2 have e: "fs' = fs" "\<not> wrote"
      by (auto simp: updateExportPaths_def)
    from False p1 rewritePass_unmodified[OF consuming_regexes(2), of cwd fs filePath dirMap content]
    have "c1 = content" by simp
    moreover from False p2 rewritePass_unmodified[OF consuming_regexes(3), of cwd fs filePath dirMap c1]
    have "c2 = c1" by simp
    ultimately show ?thesis using e p1 p2 assms(2) by simp
  qed
qed

text \<open>
  Within one pass of \<^verbatim>\<open>updateExportPaths\<close> the content is cut into the text between
  matches and the matched texts (the pieces put together are the content). The pass
  copies the text between matches, and copies every matched text whose captured
  specifier starts with neither \<^verbatim>\<open>.\<close> nor \<^verbatim>\<open>/\<close> as it is. A matched text with a relative
  specifier goes through the rewriting, which replaces the first place in the matched
  text where the text of the specifier occurs.
\<close>

lemma rewritePass_pieces:
  "fst (rewritePass re cwd fs filePath dirMap content) =
     concat (map (\<lambda>pc. case pc of
                          Gap t \<Rightarrow> t
                        | Hit matched importPath \<Rightarrow>
                            if isRelativeSpecifier importPath
                            then fst (rewriteSpecifier cwd fs filePath dirMap matched importPath)
                            else matched)
               (scan re content))
   \<and> concat (map pieceText (scan exportFromRegex content)) = content
   \<and> concat (map pieceText (scan importFromRegex content)) = content
   \<and> (updateExportPaths cwd fs filePath dirMap = Inr (fs', wrote)
        \<and> readFileSync fs filePath = Inr content \<longrightarrow>
      readFileSync fs' filePath =
        Inr (fst (rewritePass importFromRegex cwd fs filePath dirMap
               (fst (rewritePass exportFromRegex cwd fs filePath dirMap content)))))"
proof -
  have "(\<lambda>pc. case pc of Gap t \<Rightarrow> t
               | Hit matched importPath \<Rightarrow> fst (rewriteSpecifier cwd fs filePath dirMap matched importPath))
        = (\<lambda>pc. case pc of Gap t \<Rightarrow> t
               | Hit matched importPath \<Rightarrow>
                   if isRelativeSpecifier importPath
                   then fst (rewriteSpecifier cwd fs filePath dirMap matched importPath)
                   else matched)"
    by (rule ext) (simp add: rewriteSpecifier_external split: piece.splits)
  then have 1: "fst (rewritePass re cwd fs filePath dirMap content) =
     concat (map (\<lambda>pc. case pc of
                          Gap t \<Rightarrow> t
                        | Hit matched importPath \<Rightarrow>
                            if isRelativeSpecifier importPath
                            then fst (rewriteSpecifier cwd fs filePath dirMap matched importPath)
                            else matched)
               (scan re content))"
    by (simp add: rewritePass_def replacePieces_fst)
  have 2: "concat (map pieceText (scan exportFromRegex content)) = content"
    "concat (map pieceText (scan importFromRegex content)) = content"
    by (simp_all add: scan_concat consuming_regexes)
  have 3: "updateExportPaths cwd fs filePath dirMap = Inr (fs', wrote)
        \<and> readFileSync fs filePath = Inr content \<longrightarrow>
      readFileSync fs' filePath =
        Inr (fst (rewritePass importFromRegex cwd fs filePath dirMap
               (fst (rewritePass exportFromRegex cwd fs filePath dirMap content))))"
    using updateExportPaths_content[of cwd fs filePath dirMap fs' wrote content] by blast
  from 1 2 3 show ?thesis by (intro conjI)
qed

text \<open>
  C8, the code on a file whose external specifier lies inside a matched text. The
  import of the file has the specifier \<^verbatim>\<open>export ./a/x\<close>, which starts with neither \<^verbatim>\<open>.\<close> nor
  \<^verbatim>\<open>/\<close>. The expression for re-exports matches from the word \<^verbatim>\<open>export\<close> inside this specifier
  to the end of the re-export that follows on the line, and captures the relative
  specifier \<^verbatim>\<open>./a/x\<close> of the re-export. The replacement is made at the first place where
  \<^verbatim>\<open>./a/x\<close> occurs in the matched text, which is inside the external specifier: after the
  call the import has the specifier \<^verbatim>\<open>export ./q/x\<close>, and the re-export is as it was. In the
  second file the module name \<^verbatim>\<open>zone.js\<close> of a side-effect import is changed in the same
  way, through the import of \<^verbatim>\<open>.\<close> that follows it on the line.
\<close>

theorem external_specifier_rewritten_example:
  "readFileSync quotedKeywordFs ''/p/src/t.ts'' =
     Inr (''import y from '' @ quoted ''export ./a/x'' @ ''; export * from '' @ quoted ''./a/x'')
   \<and> captures (scan importFromRegex quotedKeywordContent) = [''export ./a/x'']
   \<and> \<not> isRelativeSpecifier ''export ./a/x''
   \<and> scan exportFromRegex quotedKeywordContent =
       [Gap (''import y from '' @ [sq]),
        Hit (''export ./a/x'' @ [sq] @ ''; export * from '' @ quoted ''./a/x'') ''./a/x'',
        Gap []]
   \<and> rewriteSpecifier ''/w'' quotedKeywordFs ''/p/src/t.ts'' exampleDirMap
        (''export ./a/x'' @ [sq] @ ''; export * from '' @ quoted ''./a/x'') ''./a/x'' =
       (''export ./q/x'' @ [sq] @ ''; export * from '' @ quoted ''./a/x'', True)
   \<and> updateExportPaths ''/w'' quotedKeywordFs ''/p/src/t.ts'' exampleDirMap =
       Inr ([(''/p'', Dir), (''/p/src'', Dir), (''/p/src/a'', Dir),
             (''/p/src/a/x.ts'', File ''export const x = 1;''),
             (''/p/src/t.ts'',
                File (''import y from '' @ quoted ''export ./q/x'' @ ''; export * from ''
                      @ quoted ''./a/x''))], True)
   \<and> captures (scan importFromRegex
        (''import y from '' @ quoted ''export ./q/x'' @ ''; export * from '' @ quoted ''./a/x'')) =
       [''export ./q/x'']
   \<and> updateExportPaths ''/w'' sideEffectFs ''/p/src/a/t.ts'' exampleDirMap =
       Inr ([(''/p'', Dir), (''/p/src'', Dir), (''/p/src/a'', Dir),
             (''/p/src/a/index.ts'', File ''export const x = 1;''),
             (''/p/src/a/t.ts'',
                File (''import '' @ quoted ''zone../q/indexjs'' @ ''; import x from '' @ quoted ''.''))],
            True)"
proof -
  have c1: "readFileSync quotedKeywordFs ''/p/src/t.ts'' =
     Inr (''import y from '' @ quoted ''export ./a/x'' @ ''; export * from '' @ quoted ''./a/x'')"
    by code_simp
  have c2: "captures (scan importFromRegex quotedKeywordContent) = [''export ./a/x'']"
    by code_simp
  have c3: "\<not> isRelativeSpecifier ''export ./a/x''"
    by code_simp
  have c4: "scan exportFromRegex quotedKeywordContent =
       [Gap (''import y from '' @ [sq]),
        Hit (''export ./a/x'' @ [sq] @ ''; export * from '' @ quoted ''./a/x'') ''./a/x'',
        Gap []]"
    by code_simp
  have c5: "rewriteSpecifier ''/w'' quotedKeywordFs ''/p/src/t.ts'' exampleDirMap
        (''export ./a/x'' @ [sq] @ ''; export * from '' @ quoted ''./a/x'') ''./a/x'' =
       (''export ./q/x'' @ [sq] @ ''; export * from '' @ quoted ''./a/x'', True)"
    by code_simp
  have c6: "updateExportPaths ''/w'' quotedKeywordFs ''/p/src/t.ts'' exampleDirMap =
       Inr ([(''/p'', Dir), (''/p/src'', Dir), (''/p/src/a'', Dir),
             (''/p/src/a/x.ts'', File ''export const x = 1;''),
             (''/p/src/t.ts'',
                File (''import y from '' @ quoted ''export ./q/x'' @ ''; export * from ''
                      @ quoted ''./a/x''))], True)"
    by code_simp
  have c7: "captures (scan importFromRegex
        (''import y from '' @ quoted ''export ./q/x'' @ ''; export * from '' @ quoted ''./a/x'')) =
       [''export ./q/x'']"
    by code_simp
  have c8: "updateExportPaths ''/w'' sideEffectFs ''/p/src/a/t.ts'' exampleDirMap =
       Inr ([(''/p'', Dir), (''/p/src'', Dir), (''/p/src/a'', Dir),
             (''/p/src/a/index.ts'', File ''export const x = 1;''),
             (''/p/src/a/t.ts'',
                File (''import '' @ quoted ''zone../q/indexjs'' @ ''; import x from '' @ quoted ''.''))],
            True)"
    by code_simp
  show ?thesis
    by (rule conjI c1 c2 c3 c4 c5 c6 c7 c8)+
qed

section \<open>The traversal ends\<close>

lemma usedFiles_trackDirect [simp]: "usedFiles (trackDirect xs t) = usedFiles t"
  by (induction xs arbitrary: t) (simp_all add: Let_def)

lemma usedFiles_trackReExports [simp]: "usedFiles (trackReExports xs t) = usedFiles t"
  by (induction xs arbitrary: t) (simp_all add: Let_def)

lemma readFileSync_Inr_key: "readFileSync fs p = Inr content \<Longrightarrow> p \<in> fst ` set fs"
  by (auto simp: readFileSync_def split: option.splits node.splits dest: map_of_SomeD intro: rev_image_eqI)

lemma visit_usedFiles:
  assumes "visit cwd fs packageRoot currentFile t = Inr t'"
  shows "set (usedFiles t') = insert currentFile (set (usedFiles t)) \<and> currentFile \<in> fst ` set fs"
proof -
  from assms obtain content where c: "readFileSync fs currentFile = Inr content"
    by (cases "readFileSync fs currentFile") (auto simp: visit_def Let_def)
  with assms have "usedFiles t' = setAdd currentFile (usedFiles t)"
    by (auto simp: visit_def Let_def split: sum.splits)
  with c show ?thesis by (auto simp: setAdd_def dest: readFileSync_Inr_key)
qed

lemma traverse_terminates: "\<exists>r. traverse cwd fs packageRoot t = Some r"
proof (induction "(card (fst ` set fs - set (usedFiles t)), length (toProcess t))"
         arbitrary: t rule: wf_induct_rule[OF wf_lex_prod[OF wf_less_than wf_less_than]])
  case less: 1
  show ?case
  proof (cases "toProcess t")
    case Nil
    then show ?thesis by (subst traverse.simps) simp
  next
    case (Cons next_file queue)
    let ?cur = "path_normalize next_file"
    let ?t0 = "t\<lparr>toProcess := queue\<rparr>"
    show ?thesis
    proof (cases "?cur \<in> set (usedFiles t)")
      case True
      have "\<exists>r. traverse cwd fs packageRoot ?t0 = Some r"
        by (rule less) (simp add: Cons)
      with True Cons show ?thesis by (subst traverse.simps) (simp add: Let_def)
    next
      case False
      show ?thesis
      proof (cases "visit cwd fs packageRoot ?cur ?t0")
        case (Inl e)
        with False Cons show ?thesis by (subst traverse.simps) (simp add: Let_def)
      next
        case (Inr t')
        from visit_usedFiles[OF Inr]
        have u: "set (usedFiles t') = insert ?cur (set (usedFiles t))" and k: "?cur \<in> fst ` set fs"
          by simp_all
        have "card (fst ` set fs - set (usedFiles t')) < card (fst ` set fs - set (usedFiles t))"
        proof (rule psubset_card_mono)
          show "finite (fst ` set fs - set (usedFiles t))" by simp
          from u k False show "fst ` set fs - set (usedFiles t') \<subset> fst ` set fs - set (usedFiles t)"
            by auto
        qed
        then have "\<exists>r. traverse cwd fs packageRoot t' = Some r"
          by (intro less) simp
        with False Cons Inr show ?thesis by (subst traverse.simps) (simp add: Let_def)
      qed
    qed
  qed
qed

text \<open>An invariant of the loop holds for what the loop returns.\<close>

lemma traverse_invariant:
  assumes "traverse cwd fs packageRoot t = Some (Inr t')" "I t"
    and skip: "\<And>t n q. I t \<Longrightarrow> toProcess t = n # q \<Longrightarrow> path_normalize n \<in> set (usedFiles t)
                 \<Longrightarrow> I (t\<lparr>toProcess := q\<rparr>)"
    and step: "\<And>t n q t1. I t \<Longrightarrow> toProcess t = n # q \<Longrightarrow> path_normalize n \<notin> set (usedFiles t)
                 \<Longrightarrow> visit cwd fs packageRoot (path_normalize n) (t\<lparr>toProcess := q\<rparr>) = Inr t1 \<Longrightarrow> I t1"
  shows "I t' \<and> toProcess t' = []"
  using assms(1,2)
proof (induction "(card (fst ` set fs - set (usedFiles t)), length (toProcess t))"
         arbitrary: t rule: wf_induct_rule[OF wf_lex_prod[OF wf_less_than wf_less_than]])
  case less: 1
  show ?case
  proof (cases "toProcess t")
    case Nil
    with less.prems show ?thesis by (subst (asm) traverse.simps) auto
  next
    case (Cons next_file queue)
    let ?cur = "path_normalize next_file"
    let ?t0 = "t\<lparr>toProcess := queue\<rparr>"
    show ?thesis
    proof (cases "?cur \<in> set (usedFiles t)")
      case True
      with Cons less.prems(1) have "traverse cwd fs packageRoot ?t0 = Some (Inr t')"
        by (subst (asm) traverse.simps) (simp add: Let_def)
      moreover have "I ?t0" using less.prems(2) Cons True by (rule skip)
      ultimately show ?thesis by (intro less.hyps) (simp_all add: Cons)
    next
      case False
      show ?thesis
      proof (cases "visit cwd fs packageRoot ?cur ?t0")
        case (Inl e)
        with False Cons less.prems(1) show ?thesis
          by (subst (asm) traverse.simps) (simp add: Let_def)
      next
        case (Inr t1)
        from visit_usedFiles[OF Inr]
        have u: "set (usedFiles t1) = insert ?cur (set (usedFiles t))" and k: "?cur \<in> fst ` set fs"
          by simp_all
        have "card (fst ` set fs - set (usedFiles t1)) < card (fst ` set fs - set (usedFiles t))"
        proof (rule psubset_card_mono)
          show "finite (fst ` set fs - set (usedFiles t))" by simp
          from u k False show "fst ` set fs - set (usedFiles t1) \<subset> fst ` set fs - set (usedFiles t)"
            by auto
        qed
        moreover from False Cons Inr less.prems(1) have "traverse cwd fs packageRoot t1 = Some (Inr t')"
          by (subst (asm) traverse.simps) (simp add: Let_def)
        moreover have "I t1" using less.prems(2) Cons False Inr by (rule step)
        ultimately show ?thesis by (intro less.hyps) simp_all
      qed
    qed
  qed
qed

lemma visit_usedFiles_list:
  assumes "visit cwd fs packageRoot currentFile t = Inr t'"
  shows "usedFiles t' = setAdd currentFile (usedFiles t)"
  using assms by (auto simp: visit_def Let_def split: sum.splits)

lemma traverse_distinct:
  assumes "traverse cwd fs packageRoot t = Some (Inr t')" "distinct (usedFiles t)"
  shows "distinct (usedFiles t')"
proof -
  from assms have "distinct (usedFiles t') \<and> toProcess t' = []"
  proof (rule traverse_invariant)
    fix t n q assume "distinct (usedFiles t)"
    then show "distinct (usedFiles (t\<lparr>toProcess := q\<rparr>))" by simp
  next
    fix t n q t1
    assume d: "distinct (usedFiles t)"
      and v: "visit cwd fs packageRoot (path_normalize n) (t\<lparr>toProcess := q\<rparr>) = Inr t1"
    from visit_usedFiles_list[OF v] d show "distinct (usedFiles t1)"
      by (simp add: setAdd_def)
  qed
  then show ?thesis by simp
qed

lemma findUsedFiles_distinct:
  assumes "findUsedFiles cwd fs packageRoot = Some (Inr r)"
  shows "distinct (resultUsedFiles r)"
proof (cases "existsSync fs (entryPointOf packageRoot)")
  case False
  with assms show ?thesis by (auto simp: findUsedFiles_def)
next
  case True
  with assms obtain t where t: "traverse cwd fs packageRoot (initialTraversal packageRoot) = Some (Inr t)"
    and r: "resultUsedFiles r = usedFiles t"
    by (auto simp: findUsedFiles_def split: option.splits sum.splits)
  from traverse_distinct[OF t] r show ?thesis by (simp add: initialTraversal_def)
qed

text \<open>
  C6. \<^verbatim>\<open>findUsedFiles\<close> returns for every file system and package root, whatever the
  imports and re-exports of the files refer to, cycles included: the loop ends from
  every state of its queue and its visited set. A pass of the loop either drops a
  queued file that is already visited or visits a file of the file system that was not
  visited before, and the file system is finite. No file is visited twice: the used
  files that are returned hold each file once.
\<close>

theorem findUsedFiles_terminates:
  "(\<exists>r. findUsedFiles cwd fs packageRoot = Some r)
   \<and> (\<exists>r. traverse cwd fs packageRoot t = Some r)
   \<and> (\<forall>r. findUsedFiles cwd fs packageRoot = Some (Inr r) \<longrightarrow> distinct (resultUsedFiles r))"
proof (intro conjI)
  show "\<exists>r. findUsedFiles cwd fs packageRoot = Some r"
  proof (cases "existsSync fs (entryPointOf packageRoot)")
    case False
    then show ?thesis by (simp add: findUsedFiles_def)
  next
    case True
    from traverse_terminates obtain r
      where "traverse cwd fs packageRoot (initialTraversal packageRoot) = Some r" by blast
    with True show ?thesis by (cases r) (simp_all add: findUsedFiles_def)
  qed
  show "\<exists>r. traverse cwd fs packageRoot t = Some r" by (rule traverse_terminates)
  show "\<forall>r. findUsedFiles cwd fs packageRoot = Some (Inr r) \<longrightarrow> distinct (resultUsedFiles r)"
    by (blast intro: findUsedFiles_distinct)
qed

theorem findUsedFiles_terminates_witness:
  "(\<exists>r. findUsedFiles ''/w'' cyclicFs ''/p'' = Some r)
   \<and> findUsedFiles ''/w'' cyclicFs ''/p'' =
       Some (Inr \<lparr>resultUsedFiles =
                    [''/p/src/index.ts'', ''/p/src/d.ts'', ''/p/src/a/index.ts'', ''/p/src/a/impl.ts''],
                  resultReExportedFiles = [''/p/src/a/impl.ts'']\<rparr>)"
proof -
  have "findUsedFiles ''/w'' cyclicFs ''/p'' =
       Some (Inr \<lparr>resultUsedFiles =
                    [''/p/src/index.ts'', ''/p/src/d.ts'', ''/p/src/a/index.ts'', ''/p/src/a/impl.ts''],
                  resultReExportedFiles = [''/p/src/a/impl.ts'']\<rparr>)"
    by code_simp
  with findUsedFiles_terminates[of "''/w''" cyclicFs "''/p''" "initialTraversal ''/p''"]
  show ?thesis by blast
qed

section \<open>Paths that end in a file name\<close>

lemma splitSlash_nonempty [simp]: "splitSlash acc s \<noteq> []"
  by (induction s arbitrary: acc) auto

lemma splitSlash_noslash: "CHR ''/'' \<notin> set x \<Longrightarrow> splitSlash acc x = [acc @ x]"
  by (induction x arbitrary: acc) auto

lemma splitSlash_append_noslash:
  "CHR ''/'' \<notin> set x \<Longrightarrow>
     splitSlash acc (s @ x) = butlast (splitSlash acc s) @ [last (splitSlash acc s) @ x]"
  by (induction s arbitrary: acc) (auto simp: splitSlash_noslash)

lemma splitSlash_append_slash: "splitSlash acc (s @ ''/'') = splitSlash acc s @ [[]]"
  by (induction s arbitrary: acc) auto

lemma normalizeSegs_append:
  "normalizeSegs al stack (xs @ ys) = normalizeSegs al (rev (normalizeSegs al stack xs)) ys"
  by (induction xs arbitrary: stack) (auto split: list.splits)

lemma normalizeSegs_snoc_regular:
  "regularSeg seg \<Longrightarrow> normalizeSegs al stack (xs @ [seg]) = normalizeSegs al stack xs @ [seg]"
  by (simp add: normalizeSegs_append regularSeg_def)

lemma normalizeSegs_snoc_empty:
  "normalizeSegs al stack (xs @ [[]]) = normalizeSegs al stack xs"
  by (simp add: normalizeSegs_append)

lemma joinSlash_snoc: "suffix x (joinSlash (xs @ [x]))"
  by (induction xs rule: joinSlash.induct) (auto simp: suffix_Cons suffix_append)

lemma joinSlash_snoc_nonempty: "x \<noteq> [] \<Longrightarrow> joinSlash (xs @ [x]) \<noteq> []"
  by (induction xs rule: joinSlash.induct) auto

lemma regular_last_segment:
  assumes "\<exists>c\<in>set x. c \<noteq> CHR ''.''"
  shows "regularSeg (y @ x)"
proof -
  from assms obtain c where c: "c \<in> set x" "c \<noteq> CHR ''.''" by blast
  then have "c \<in> set (y @ x)" by simp
  moreover have "set ''.'' = {CHR ''.''}" "set ''..'' = {CHR ''.''}" by auto
  ultimately show ?thesis using c(2) unfolding regularSeg_def
    by (metis empty_iff empty_set singletonD)
qed

text \<open>A name at the end of a path survives normalisation.\<close>

lemma normalizeString_suffix:
  assumes "CHR ''/'' \<notin> set x" "\<exists>c\<in>set x. c \<noteq> CHR ''.''"
  shows "suffix x (normalizeString (s @ x) al) \<and> normalizeString (s @ x) al \<noteq> []"
proof -
  have r: "regularSeg (last (splitSlash [] s) @ x)" by (rule regular_last_segment[OF assms(2)])
  then have ne: "last (splitSlash [] s) @ x \<noteq> []" by (simp add: regularSeg_def)
  have "normalizeString (s @ x) al =
        joinSlash (normalizeSegs al [] (butlast (splitSlash [] s)) @ [last (splitSlash [] s) @ x])"
    by (simp add: normalizeString_def splitSlash_append_noslash[OF assms(1)] normalizeSegs_snoc_regular[OF r])
  moreover have "suffix x (last (splitSlash [] s) @ x)" by (simp add: suffix_append)
  ultimately show ?thesis
    using joinSlash_snoc[of "last (splitSlash [] s) @ x" "normalizeSegs al [] (butlast (splitSlash [] s))"]
      joinSlash_snoc_nonempty[OF ne, of "normalizeSegs al [] (butlast (splitSlash [] s))"]
    by (metis suffix_order.order_trans)
qed

lemma normalizeString_slash_suffix:
  assumes "CHR ''/'' \<notin> set x" "\<exists>c\<in>set x. c \<noteq> CHR ''.''"
  shows "suffix x (normalizeString (s @ x @ ''/'') al) \<and> normalizeString (s @ x @ ''/'') al \<noteq> []"
proof -
  have "normalizeString (s @ x @ ''/'') al = normalizeString (s @ x) al"
    using splitSlash_append_slash[of "[]" "s @ x"]
    by (simp add: normalizeString_def normalizeSegs_snoc_empty)
  with normalizeString_suffix[OF assms] show ?thesis by simp
qed

lemma path_normalize_suffix:
  assumes "CHR ''/'' \<notin> set x" "\<exists>c\<in>set x. c \<noteq> CHR ''.''" "suffix x p"
  shows "suffix x (path_normalize p)"
proof -
  from assms(3) obtain s where p: "p = s @ x" by (auto simp: suffix_def)
  from assms(2) have xne: "x \<noteq> []" by auto
  with p have pne: "p \<noteq> []" by simp
  from xne p assms(1) have nl: "last p \<noteq> CHR ''/''" by (metis last_appendR last_in_set)
  from normalizeString_suffix[OF assms(1,2), of s "\<not> isAbsolute p"] p
  have "suffix x (normalizeString p (\<not> isAbsolute p))" "normalizeString p (\<not> isAbsolute p) \<noteq> []"
    by simp_all
  with pne nl show ?thesis
    by (auto simp: path_normalize_def Let_def suffix_append)
qed

lemma resolveArgs_prepend: "\<exists>pre. resolveArgs acc ps = pre @ acc"
proof (induction ps arbitrary: acc)
  case Nil
  then show ?case by simp
next
  case (Cons p ps)
  show ?case
  proof (cases "p = [] \<or> isAbsolute p")
    case True
    then show ?thesis using Cons.IH[of acc] by auto
  next
    case False
    from Cons.IH[of "p @ CHR ''/'' # acc"] obtain pre
      where "resolveArgs (p @ CHR ''/'' # acc) ps = pre @ p @ CHR ''/'' # acc" by blast
    with False have "resolveArgs acc (p # ps) = (pre @ p @ ''/'') @ acc" by simp
    then show ?thesis by blast
  qed
qed

lemma path_resolve_suffix:
  assumes "CHR ''/'' \<notin> set x" "\<exists>c\<in>set x. c \<noteq> CHR ''.''" "suffix x a"
  shows "suffix x (path_resolve cwd (args @ [a]))"
proof -
  from assms(3) obtain s where a: "a = s @ x" by (auto simp: suffix_def)
  from assms(2) a have ane: "a \<noteq> []" by auto
  have "\<exists>pre. resolveArgs [] (rev (cwd # args @ [a])) = pre @ a @ ''/''"
  proof (cases "isAbsolute a")
    case True
    with ane show ?thesis by auto
  next
    case False
    from resolveArgs_prepend[of "a @ ''/''" "rev args @ [cwd]"] False ane show ?thesis by auto
  qed
  then obtain pre where "resolveArgs [] (rev (cwd # args @ [a])) = (pre @ s) @ x @ ''/''"
    using a by auto
  with normalizeString_slash_suffix[OF assms(1,2), of "pre @ s"]
  show ?thesis
    by (auto simp: path_resolve_def Let_def suffix_Cons)
qed

lemma joinSlash_suffix_last: "suffix x a \<Longrightarrow> suffix x (joinSlash (xs @ [a]))"
  using joinSlash_snoc[of a xs] by (metis suffix_order.order_trans)

lemma path_join_suffix:
  assumes "CHR ''/'' \<notin> set x" "\<exists>c\<in>set x. c \<noteq> CHR ''.''" "suffix x a"
  shows "suffix x (path_join (args @ [a]))"
proof -
  from assms(2,3) have ane: "a \<noteq> []" by (auto simp: suffix_def)
  then have "filter (\<lambda>a. a \<noteq> []) (args @ [a]) = filter (\<lambda>a. a \<noteq> []) args @ [a]" by simp
  with ane show ?thesis
    using path_normalize_suffix[OF assms(1,2) joinSlash_suffix_last[OF assms(3), of "filter (\<lambda>a. a \<noteq> []) args"]]
    by (simp add: path_join_def Let_def)
qed

section \<open>Files that are re-exported only\<close>

lemma ts_facts: "CHR ''/'' \<notin> set ''.ts''" "\<exists>c\<in>set ''.ts''. c \<noteq> CHR ''.''"
  "CHR ''/'' \<notin> set ''index.ts''" "\<exists>c\<in>set ''index.ts''. c \<noteq> CHR ''.''"
  by auto

lemma resolveSpecifier_ts: "endsWith (resolveSpecifier cwd fs dir importPath) ''.ts''"
proof -
  have 1: "endsWith importPath ''.ts'' \<Longrightarrow> endsWith (path_resolve cwd [dir, importPath]) ''.ts''"
    using path_resolve_suffix[OF ts_facts(1,2), of importPath cwd "[dir]"] by (simp add: endsWith_def)
  have 2: "endsWith (path_resolve cwd [dir, importPath @ ''.ts'']) ''.ts''"
    using path_resolve_suffix[OF ts_facts(1,2), of "importPath @ ''.ts''" cwd "[dir]"]
    by (simp add: endsWith_def suffix_append)
  have 3: "endsWith (path_resolve cwd [dir, importPath, ''index.ts'']) ''.ts''"
    using path_resolve_suffix[OF ts_facts(1,2), of "''index.ts''" cwd "[dir, importPath]"]
    by (simp add: endsWith_def suffix_def)
  from 1 2 3 show ?thesis by (simp add: resolveSpecifier_def Let_def)
qed

lemma resolveInPackage_ts:
  "resolveInPackage cwd fs packageRoot filePath importPath = Some p \<Longrightarrow> endsWith p ''.ts''"
  using path_normalize_suffix[OF ts_facts(1,2), of "resolveSpecifier cwd fs (path_dirname filePath) importPath"]
    resolveSpecifier_ts[of cwd fs "path_dirname filePath" importPath]
  by (auto simp: resolveInPackage_def acceptResolved_def Let_def endsWith_def split: if_splits)

lemma collectImports_ts:
  "p \<in> set (collectImports cwd fs packageRoot filePath caps) \<Longrightarrow> endsWith p ''.ts''"
  by (induction caps) (auto split: if_splits option.splits dest: resolveInPackage_ts)

lemma extractImports_ts:
  "extractImports cwd fs filePath packageRoot = Inr found \<Longrightarrow>
     p \<in> set (directImports found) \<union> set (reExports found) \<Longrightarrow> endsWith p ''.ts''"
  by (auto simp: extractImports_def split: if_splits sum.splits dest: collectImports_ts)

lemma toProcess_trackDirect:
  "q \<in> set (toProcess (trackDirect xs t)) \<Longrightarrow>
     q \<in> set (toProcess t) \<or> q \<in> path_normalize ` set xs"
proof (induction xs arbitrary: t)
  case Nil
  then show ?case by simp
next
  case (Cons a xs)
  let ?t1 = "t\<lparr>directlyImportedFiles := setAdd (path_normalize a) (directlyImportedFiles t)\<rparr>"
  let ?t2 = "if path_normalize a \<notin> set (usedFiles ?t1)
             then ?t1\<lparr>toProcess := toProcess ?t1 @ [path_normalize a]\<rparr> else ?t1"
  from Cons.prems have "q \<in> set (toProcess (trackDirect xs ?t2))" by (simp add: Let_def)
  from Cons.IH[OF this] have "q \<in> set (toProcess ?t2) \<or> q \<in> path_normalize ` set xs" .
  moreover have "set (toProcess ?t2) \<subseteq> insert (path_normalize a) (set (toProcess t))" by auto
  ultimately show ?case by auto
qed

lemma toProcess_trackReExports:
  "q \<in> set (toProcess (trackReExports xs t)) \<Longrightarrow>
     q \<in> set (toProcess t) \<or> q \<in> path_normalize ` set xs"
proof (induction xs arbitrary: t)
  case Nil
  then show ?case by simp
next
  case (Cons a xs)
  let ?t2 = "if path_normalize a \<notin> set (usedFiles t)
             then t\<lparr>toProcess := toProcess t @ [path_normalize a]\<rparr> else t"
  from Cons.prems have "q \<in> set (toProcess (trackReExports xs ?t2))" by (simp add: Let_def)
  from Cons.IH[OF this] have "q \<in> set (toProcess ?t2) \<or> q \<in> path_normalize ` set xs" .
  moreover have "set (toProcess ?t2) \<subseteq> insert (path_normalize a) (set (toProcess t))" by auto
  ultimately show ?case by auto
qed

lemma normalize_ts: "endsWith p ''.ts'' \<Longrightarrow> endsWith (path_normalize p) ''.ts''"
  using path_normalize_suffix[OF ts_facts(1,2)] by (simp add: endsWith_def)

lemma visit_toProcess:
  assumes "visit cwd fs packageRoot currentFile t = Inr t'" "q \<in> set (toProcess t')"
  shows "q \<in> set (toProcess t) \<or> endsWith q ''.ts''"
proof -
  from assms(1) obtain content found where
    "readFileSync fs currentFile = Inr content"
    and f: "extractImports cwd fs currentFile packageRoot = Inr found"
    and t': "t' = trackReExports (reExports found) (trackDirect (directImports found)
               (t\<lparr>usedFiles := setAdd currentFile (usedFiles t),
                  directlyImportedFiles := recordDirect cwd fs packageRoot currentFile
                     (captures (scan directImportRegex content)) (directlyImportedFiles t)\<rparr>))"
    by (auto simp: visit_def Let_def split: sum.splits)
  from assms(2) t'
  have "q \<in> set (toProcess t) \<or> q \<in> path_normalize ` (set (directImports found) \<union> set (reExports found))"
    by (auto dest!: toProcess_trackReExports toProcess_trackDirect)
  with extractImports_ts[OF f] normalize_ts show ?thesis by blast
qed

lemma entryPoint_index: "endsWith (entryPointOf packageRoot) ''index.ts''"
  using path_join_suffix[OF ts_facts(3,4), of "''index.ts''" "[packageRoot, ''src'']"]
  by (simp add: entryPointOf_def endsWith_def)

lemma entryPoint_normalized_index: "endsWith (path_normalize (entryPointOf packageRoot)) ''index.ts''"
  using path_normalize_suffix[OF ts_facts(3,4)] entryPoint_index by (simp add: endsWith_def)

lemma index_ts: "endsWith f ''index.ts'' \<Longrightarrow> endsWith f ''.ts''"
  by (auto simp: endsWith_def suffix_def)

lemma traverse_allTs:
  assumes "traverse cwd fs packageRoot (initialTraversal packageRoot) = Some (Inr t)"
  shows "\<forall>f\<in>set (usedFiles t). endsWith f ''.ts''"
proof -
  have "allTs (initialTraversal packageRoot)"
    using entryPoint_normalized_index[of packageRoot]
    by (simp add: allTs_def initialTraversal_def index_ts)
  with assms have "allTs t \<and> toProcess t = []"
  proof (rule traverse_invariant)
    fix t n q assume "allTs t" "toProcess t = n # q"
    then show "allTs (t\<lparr>toProcess := q\<rparr>)" by (simp add: allTs_def)
  next
    fix t n q t1
    assume a: "allTs t" "toProcess t = n # q"
      and v: "visit cwd fs packageRoot (path_normalize n) (t\<lparr>toProcess := q\<rparr>) = Inr t1"
    from a have n: "endsWith (path_normalize n) ''.ts''" by (simp add: allTs_def normalize_ts)
    from visit_usedFiles[OF v] have u: "set (usedFiles t1) = insert (path_normalize n) (set (usedFiles t))"
      by simp
    show "allTs t1"
      unfolding allTs_def
    proof
      fix f assume "f \<in> set (usedFiles t1) \<union> set (toProcess t1)"
      then consider "f = path_normalize n" | "f \<in> set (usedFiles t)" | "f \<in> set (toProcess t1)"
        using u by auto
      then show "endsWith f ''.ts''"
      proof cases
        case 1 with n show ?thesis by simp
      next
        case 2 with a show ?thesis by (simp add: allTs_def)
      next
        case 3
        from visit_toProcess[OF v 3] a show ?thesis by (auto simp: allTs_def)
      qed
    qed
  qed
  then show ?thesis by (simp add: allTs_def)
qed

text \<open>
  C3, as the code has it. When the traversal of a package with an entry file returns,
  \<^verbatim>\<open>reExportedFiles\<close> holds exactly the used files that are not among the directly
  imported files and whose path does not end in \<^verbatim>\<open>index.ts\<close>. So it is a subset of the
  used files and does not hold the entry file; it holds no other index file either.
\<close>

theorem reExportedFiles_characterisation:
  assumes "existsSync fs (entryPointOf packageRoot)"
    and "traverse cwd fs packageRoot (initialTraversal packageRoot) = Some (Inr t)"
  shows "findUsedFiles cwd fs packageRoot =
           Some (Inr \<lparr>resultUsedFiles = usedFiles t, resultReExportedFiles = reExportedOf t\<rparr>)
       \<and> set (reExportedOf t) =
           {file \<in> set (usedFiles t). file \<notin> set (directlyImportedFiles t) \<and> \<not> endsWith file ''index.ts''}
       \<and> set (reExportedOf t) \<subseteq> set (usedFiles t)
       \<and> entryPointOf packageRoot \<notin> set (reExportedOf t)
       \<and> path_normalize (entryPointOf packageRoot) \<notin> set (reExportedOf t)"
proof -
  from assms have 1: "findUsedFiles cwd fs packageRoot =
           Some (Inr \<lparr>resultUsedFiles = usedFiles t, resultReExportedFiles = reExportedOf t\<rparr>)"
    by (simp add: findUsedFiles_def)
  from traverse_allTs[OF assms(2)] have 2: "set (reExportedOf t) =
           {file \<in> set (usedFiles t). file \<notin> set (directlyImportedFiles t) \<and> \<not> endsWith file ''index.ts''}"
    by (auto simp: reExportedOf_def)
  from 2 entryPoint_index entryPoint_normalized_index
  have 3: "entryPointOf packageRoot \<notin> set (reExportedOf t)"
    "path_normalize (entryPointOf packageRoot) \<notin> set (reExportedOf t)" by auto
  from 1 2 3 show ?thesis by auto
qed

theorem reExportedFiles_characterisation_witness:
  "findUsedFiles ''/w'' cyclicFs ''/p'' =
     Some (Inr \<lparr>resultUsedFiles =
                  [''/p/src/index.ts'', ''/p/src/d.ts'', ''/p/src/a/index.ts'', ''/p/src/a/impl.ts''],
                resultReExportedFiles = [''/p/src/a/impl.ts'']\<rparr>)
   \<and> entryPointOf ''/p'' \<notin> set [''/p/src/a/impl.ts'']"
proof -
  have e: "existsSync cyclicFs (entryPointOf ''/p'')" by code_simp
  have t: "traverse ''/w'' cyclicFs ''/p'' (initialTraversal ''/p'') =
     Some (Inr \<lparr>usedFiles =
                  [''/p/src/index.ts'', ''/p/src/d.ts'', ''/p/src/a/index.ts'', ''/p/src/a/impl.ts''],
                directlyImportedFiles = [''/p/src/d.ts''], toProcess = []\<rparr>)"
    by code_simp
  have r: "reExportedOf \<lparr>usedFiles =
                  [''/p/src/index.ts'', ''/p/src/d.ts'', ''/p/src/a/index.ts'', ''/p/src/a/impl.ts''],
                directlyImportedFiles = [''/p/src/d.ts''], toProcess = []\<rparr> = [''/p/src/a/impl.ts'']"
    by code_simp
  note h = reExportedFiles_characterisation[OF e t]
  from h have 1: "findUsedFiles ''/w'' cyclicFs ''/p'' =
     Some (Inr \<lparr>resultUsedFiles =
                  [''/p/src/index.ts'', ''/p/src/d.ts'', ''/p/src/a/index.ts'', ''/p/src/a/impl.ts''],
                resultReExportedFiles = [''/p/src/a/impl.ts'']\<rparr>)"
    by (simp add: r)
  from h have 2: "entryPointOf ''/p'' \<notin> set [''/p/src/a/impl.ts'']"
    unfolding r by (elim conjE)
  from 1 2 show ?thesis by (rule conjI)
qed

text \<open>
  C3 as the specification states it fails: the index file of a directory that the
  entry file re-exports is used, is not the entry file and is never directly imported,
  and it is not among the re-exported files.
\<close>

theorem reExportedFiles_counterexample:
  "traverse ''/w'' barrelFs ''/p'' (initialTraversal ''/p'') =
     Some (Inr \<lparr>usedFiles = [''/p/src/index.ts'', ''/p/src/a/index.ts''],
                directlyImportedFiles = [], toProcess = []\<rparr>)
   \<and> findUsedFiles ''/w'' barrelFs ''/p'' =
       Some (Inr \<lparr>resultUsedFiles = [''/p/src/index.ts'', ''/p/src/a/index.ts''],
                  resultReExportedFiles = []\<rparr>)
   \<and> entryPointOf ''/p'' = ''/p/src/index.ts''"
proof -
  have c1: "traverse ''/w'' barrelFs ''/p'' (initialTraversal ''/p'') =
     Some (Inr \<lparr>usedFiles = [''/p/src/index.ts'', ''/p/src/a/index.ts''],
                directlyImportedFiles = [], toProcess = []\<rparr>)"
    by code_simp
  have c2: "findUsedFiles ''/w'' barrelFs ''/p'' =
       Some (Inr \<lparr>resultUsedFiles = [''/p/src/index.ts'', ''/p/src/a/index.ts''],
                  resultReExportedFiles = []\<rparr>)"
    by code_simp
  have c3: "entryPointOf ''/p'' = ''/p/src/index.ts''"
    by code_simp
  show ?thesis
    by (rule conjI c1 c2 c3)+
qed

section \<open>Which statements count as direct imports\<close>















section \<open>The resolver\<close>

lemma regular_not_dots [simp]: "regularSeg x \<Longrightarrow> x \<noteq> ''..''"
  by (auto simp: regularSeg_def)

lemma normalForm_regulars: "list_all regularSeg xs \<Longrightarrow> normalForm al xs"
  by (cases xs) auto

lemma normalForm_snoc_regular:
  "normalForm al a \<Longrightarrow> regularSeg x \<Longrightarrow> normalForm al (a @ [x])"
  by (induction a) auto

lemma normalForm_prefix: "normalForm al (a @ b) \<Longrightarrow> normalForm al a"
  by (induction a) auto

lemma normalForm_before_dots:
  "normalForm al (a @ ''..'' # b) \<Longrightarrow> al \<and> (\<forall>x\<in>set a. x = ''..'')"
proof (induction a)
  case Nil
  then show ?case by simp
next
  case (Cons x a)
  show ?case
  proof (cases "x = ''..''")
    case True
    with Cons.prems have "al \<and> normalForm al (a @ ''..'' # b)" by (cases al) simp_all
    then have "al" "normalForm al (a @ ''..'' # b)" by blast+
    with Cons.IH True show ?thesis by simp
  next
    case False
    with Cons.prems have "list_all regularSeg (a @ ''..'' # b)" by simp
    then have "regularSeg ''..''" by (simp add: list_all_iff)
    then show ?thesis by (simp add: regularSeg_def)
  qed
qed

lemma normalForm_dots_snoc:
  "al \<Longrightarrow> \<forall>x\<in>set a. x = ''..'' \<Longrightarrow> normalForm al (a @ [''..''])"
  by (induction a) auto

lemma normalForm_element:
  "normalForm al xs \<Longrightarrow> x \<in> set xs \<Longrightarrow> x = ''..'' \<or> regularSeg x"
  by (induction xs) (auto simp: list_all_iff split: if_splits)

lemma normalizeSegs_normalForm:
  "normalForm al (rev stack) \<Longrightarrow> normalForm al (normalizeSegs al stack segs)"
proof (induction segs arbitrary: stack)
  case Nil
  then show ?case by simp
next
  case (Cons seg segs)
  show ?case
  proof (cases "seg = [] \<or> seg = ''.''")
    case True
    with Cons show ?thesis by simp
  next
    case skip: False
    show ?thesis
    proof (cases "seg = ''..''")
      case False
      with skip have "regularSeg seg" by (simp add: regularSeg_def)
      with Cons.prems have "normalForm al (rev (seg # stack))"
        by (simp add: normalForm_snoc_regular)
      from Cons.IH[OF this] skip False show ?thesis by simp
    next
      case True
      show ?thesis
      proof (cases stack)
        case Nil
        with True Cons.IH[of "[''..'']"] Cons.IH[of "[]"] show ?thesis by (cases al) simp_all
      next
        case (Cons tp below)
        show ?thesis
        proof (cases "tp = ''..''")
          case dots: True
          with Cons Cons.prems have "normalForm al (rev below @ [''..''])" by simp
          from normalForm_before_dots[OF this] have "al" "\<forall>x\<in>set (rev stack). x = ''..''"
            using Cons dots by auto
          then have "normalForm al (rev (''..'' # stack))"
            using normalForm_dots_snoc[of al "rev stack"] by simp
          from Cons.IH[OF this] True Cons dots show ?thesis by simp
        next
          case False
          from Cons.prems Cons have "normalForm al (rev below)"
            using normalForm_prefix[of al "rev below" "[tp]"] by simp
          from Cons.IH[OF this] True Cons False show ?thesis by simp
        qed
      qed
    qed
  qed
qed

lemma normalizeSegs_identity:
  "normalForm al (rev stack @ xs) \<Longrightarrow> normalizeSegs al stack xs = rev stack @ xs"
proof (induction xs arbitrary: stack)
  case Nil
  then show ?case by simp
next
  case (Cons x xs)
  from Cons.prems have nf: "normalForm al (rev (x # stack) @ xs)" by simp
  show ?case
  proof (cases "x = ''..''")
    case False
    with normalForm_element[OF Cons.prems, of x] have "regularSeg x" by simp
    with Cons.IH[OF nf] show ?thesis by (simp add: regularSeg_def)
  next
    case True
    with normalForm_before_dots[of al "rev stack" xs] Cons.prems
    have al: "al" and d: "\<forall>y\<in>set stack. y = ''..''" by auto
    show ?thesis
    proof (cases stack)
      case Nil
      with True al Cons.IH[of "[''..'']"] Cons.prems show ?thesis by simp
    next
      case (Cons tp below)
      with d have "tp = ''..''" by simp
      with True Cons Cons.IH[OF nf] show ?thesis by simp
    qed
  qed
qed

lemma normalizeSegs_idempotent:
  "normalizeSegs al [] (normalizeSegs al [] segs) = normalizeSegs al [] segs"
  using normalizeSegs_identity[of al "[]" "normalizeSegs al [] segs"]
    normalizeSegs_normalForm[of al "[]" segs] by simp

lemma splitSlash_slash_free:
  "CHR ''/'' \<notin> set acc \<Longrightarrow> \<forall>seg\<in>set (splitSlash acc s). CHR ''/'' \<notin> set seg"
proof (induction s arbitrary: acc)
  case Nil
  then show ?case by simp
next
  case (Cons c s)
  show ?case
  proof (cases "c = CHR ''/''")
    case True
    with Cons.IH[of "[]"] Cons.prems show ?thesis by simp
  next
    case False
    with Cons.IH[of "acc @ [c]"] Cons.prems show ?thesis by simp
  qed
qed

lemma splitSlash_noslash_prefix:
  "CHR ''/'' \<notin> set x \<Longrightarrow> splitSlash acc (x @ CHR ''/'' # rest) = (acc @ x) # splitSlash [] rest"
  by (induction x arbitrary: acc) auto

lemma splitSlash_joinSlash:
  "segs \<noteq> [] \<Longrightarrow> \<forall>seg\<in>set segs. CHR ''/'' \<notin> set seg \<Longrightarrow>
     splitSlash acc (joinSlash segs) = (acc @ hd segs) # tl segs"
proof (induction segs arbitrary: acc rule: joinSlash.induct)
  case 1
  then show ?case by simp
next
  case (2 x)
  then show ?case by (simp add: splitSlash_noslash)
next
  case (3 x y ys)
  have "splitSlash acc (x @ CHR ''/'' # joinSlash (y # ys)) = (acc @ x) # splitSlash [] (joinSlash (y # ys))"
    using 3(3) by (intro splitSlash_noslash_prefix) simp
  with 3 show ?case by simp
qed

lemma normalizeSegs_subset:
  "set (normalizeSegs al stack segs) \<subseteq> set stack \<union> set segs"
proof (induction segs arbitrary: stack)
  case Nil
  then show ?case by simp
next
  case (Cons seg segs)
  show ?case
  proof (cases "seg = [] \<or> seg = ''.''")
    case True
    with Cons.IH[of stack] show ?thesis by auto
  next
    case skip: False
    show ?thesis
    proof (cases "seg = ''..''")
      case False
      with skip Cons.IH[of "seg # stack"] show ?thesis by auto
    next
      case True
      show ?thesis
      proof (cases stack)
        case Nil
        with True Cons.IH[of "[''..'']"] Cons.IH[of "[]"] show ?thesis by (cases al) auto
      next
        case (Cons tp below)
        with True Cons.IH[of "''..'' # stack"] Cons.IH[of below] show ?thesis
          by (cases "tp = ''..''") auto
      qed
    qed
  qed
qed

lemma normalized_segments:
  assumes "N = normalizeSegs al [] (splitSlash [] p)"
  shows "\<forall>seg\<in>set N. CHR ''/'' \<notin> set seg \<and> seg \<noteq> []"
proof
  fix seg assume s: "seg \<in> set N"
  with assms normalizeSegs_subset[of al "[]" "splitSlash [] p"]
  have "seg \<in> set (splitSlash [] p)" by auto
  then have "CHR ''/'' \<notin> set seg" using splitSlash_slash_free[of "[]" p] by simp
  moreover from normalizeSegs_normalForm[of al "[]" "splitSlash [] p"] assms s
  have "seg = ''..'' \<or> regularSeg seg" using normalForm_element by auto
  then have "seg \<noteq> []" by (auto simp: regularSeg_def)
  ultimately show "CHR ''/'' \<notin> set seg \<and> seg \<noteq> []" by simp
qed

lemma joinSlash_hd: "segs \<noteq> [] \<Longrightarrow> hd segs \<noteq> [] \<Longrightarrow> joinSlash segs \<noteq> [] \<and> hd (joinSlash segs) = hd (hd segs)"
  by (induction segs rule: joinSlash.induct) auto

lemma joinSlash_last_nonempty: "segs \<noteq> [] \<Longrightarrow> last segs \<noteq> [] \<Longrightarrow> joinSlash segs \<noteq> []"
  by (induction segs rule: joinSlash.induct) auto

lemma joinSlash_last:
  "segs \<noteq> [] \<Longrightarrow> last segs \<noteq> [] \<Longrightarrow> last (joinSlash segs) = last (last segs)"
proof (induction segs rule: joinSlash.induct)
  case (3 x y ys)
  then have "joinSlash (y # ys) \<noteq> []" using joinSlash_last_nonempty[of "y # ys"] by simp
  with 3 show ?case by simp
qed simp_all

text \<open>What \<^verbatim>\<open>path.resolve\<close> returns is normalised already.\<close>

lemma path_normalize_resolve: "path_normalize (path_resolve cwd args) = path_resolve cwd args"
proof -
  define R where "R = resolveArgs [] (rev (cwd # args))"
  define al where "al = (\<not> isAbsolute R)"
  define N where "N = normalizeSegs al [] (splitSlash [] R)"
  have segs: "\<forall>seg\<in>set N. CHR ''/'' \<notin> set seg \<and> seg \<noteq> []"
    using normalized_segments[OF N_def] .
  have nf: "normalForm al N" unfolding N_def using normalizeSegs_normalForm[of al "[]"] by simp
  have idem: "normalizeSegs al [] N = N" unfolding N_def by (rule normalizeSegs_idempotent)
  have pr: "path_resolve cwd args =
      (if isAbsolute R then CHR ''/'' # joinSlash N else if joinSlash N = [] then ''.'' else joinSlash N)"
    by (simp add: path_resolve_def Let_def R_def N_def al_def normalizeString_def)
  show ?thesis
  proof (cases "N = []")
    case True
    with pr have "path_resolve cwd args = (if isAbsolute R then ''/'' else ''.'')" by simp
    then show ?thesis
      by (auto simp: path_normalize_def normalizeString_def isAbsolute_def Let_def)
  next
    case False
    then have hdne: "hd N \<noteq> []" and lastne: "last N \<noteq> []" using segs by auto
    have j: "joinSlash N \<noteq> []" using joinSlash_hd[OF False hdne] by simp
    have h: "hd (joinSlash N) \<noteq> CHR ''/''"
      using joinSlash_hd[OF False hdne] segs False hdne by (metis hd_in_set list.set_sel(1))
    have l: "last (joinSlash N) \<noteq> CHR ''/''"
      using joinSlash_last[OF False lastne] segs False lastne by (metis last_in_set)
    have sp: "splitSlash [] (joinSlash N) = N"
      using splitSlash_joinSlash[OF False, of "[]"] segs False by simp
    show ?thesis
    proof (cases "isAbsolute R")
      case True
      with pr have p: "path_resolve cwd args = CHR ''/'' # joinSlash N" by simp
      have "normalizeString (CHR ''/'' # joinSlash N) False = joinSlash N"
        using sp idem True by (simp add: normalizeString_def al_def)
      with p j l show ?thesis
        by (simp add: path_normalize_def isAbsolute_def Let_def)
    next
      case rel: False
      with pr j have p: "path_resolve cwd args = joinSlash N" by simp
      have na: "\<not> isAbsolute (joinSlash N)"
        using h j by (cases "joinSlash N") (auto simp: isAbsolute_def)
      have "normalizeString (joinSlash N) True = joinSlash N"
        using sp idem rel by (simp add: normalizeString_def al_def)
      with p j l na show ?thesis
        by (simp add: path_normalize_def Let_def)
    qed
  qed
qed

lemma withinRoot_startsWith: "withinRoot root p \<Longrightarrow> startsWith p root"
  by (auto simp: withinRoot_def startsWith_def prefix_def split: if_splits)

text \<open>
  C5, as the code has it. A relative specifier resolves to one candidate: the specifier
  as given when it ends in \<^verbatim>\<open>.ts\<close> (whether or not that file exists, and with no other
  candidate tried); otherwise the specifier with \<^verbatim>\<open>.ts\<close> appended when that exists, and
  else the \<^verbatim>\<open>index.ts\<close> of the directory it names. A result is always this candidate, and
  it exists. Leave aside a candidate outside the package root whose path string begins
  with the path string of the root (the root is \<^verbatim>\<open>/p\<close> and the candidate is in \<^verbatim>\<open>/pq\<close>): for
  every other candidate, the candidate is the result exactly when it lies within the
  package root and exists, and there is no result otherwise.
\<close>

theorem resolveInPackage_contract:
  "resolveSpecifier cwd fs (path_dirname filePath) importPath =
     (if endsWith importPath ''.ts'' then path_resolve cwd [path_dirname filePath, importPath]
      else if existsSync fs (path_resolve cwd [path_dirname filePath, importPath @ ''.ts''])
      then path_resolve cwd [path_dirname filePath, importPath @ ''.ts'']
      else path_resolve cwd [path_dirname filePath, importPath, ''index.ts''])
   \<and> (resolveInPackage cwd fs packageRoot filePath importPath = Some p \<longrightarrow>
        p = resolveSpecifier cwd fs (path_dirname filePath) importPath \<and> existsSync fs p)
   \<and> ((startsWith (resolveSpecifier cwd fs (path_dirname filePath) importPath) (path_normalize packageRoot) \<longrightarrow>
         withinRoot (path_normalize packageRoot) (resolveSpecifier cwd fs (path_dirname filePath) importPath)) \<longrightarrow>
       resolveInPackage cwd fs packageRoot filePath importPath =
         (if withinRoot (path_normalize packageRoot) (resolveSpecifier cwd fs (path_dirname filePath) importPath)
             \<and> existsSync fs (resolveSpecifier cwd fs (path_dirname filePath) importPath)
          then Some (resolveSpecifier cwd fs (path_dirname filePath) importPath) else None))"
proof -
  let ?c = "resolveSpecifier cwd fs (path_dirname filePath) importPath"
  have n: "path_normalize ?c = ?c"
    by (simp add: resolveSpecifier_def Let_def path_normalize_resolve)
  have r: "resolveInPackage cwd fs packageRoot filePath importPath =
             (if startsWith ?c (path_normalize packageRoot) \<and> existsSync fs ?c then Some ?c else None)"
    by (simp add: resolveInPackage_def acceptResolved_def Let_def n)
  have 1: "?c = (if endsWith importPath ''.ts'' then path_resolve cwd [path_dirname filePath, importPath]
      else if existsSync fs (path_resolve cwd [path_dirname filePath, importPath @ ''.ts''])
      then path_resolve cwd [path_dirname filePath, importPath @ ''.ts'']
      else path_resolve cwd [path_dirname filePath, importPath, ''index.ts''])"
    by (simp add: resolveSpecifier_def Let_def)
  have 2: "resolveInPackage cwd fs packageRoot filePath importPath = Some p \<longrightarrow>
        p = ?c \<and> existsSync fs p"
    unfolding r by (auto split: if_splits)
  have 3: "(startsWith ?c (path_normalize packageRoot) \<longrightarrow> withinRoot (path_normalize packageRoot) ?c) \<longrightarrow>
       resolveInPackage cwd fs packageRoot filePath importPath =
         (if withinRoot (path_normalize packageRoot) ?c \<and> existsSync fs ?c then Some ?c else None)"
    unfolding r using withinRoot_startsWith[of "path_normalize packageRoot" ?c] by auto
  from 1 2 3 show ?thesis by (intro conjI)
qed

theorem resolveInPackage_contract_witness:
  "resolveInPackage ''/w'' candidatesFs ''/p'' ''/p/src/index.ts'' ''./a'' = Some ''/p/src/a.ts''
   \<and> resolveInPackage ''/w'' candidatesFs ''/p'' ''/p/src/index.ts'' ''./b'' = Some ''/p/src/b/index.ts''
   \<and> resolveInPackage ''/w'' candidatesFs ''/p'' ''/p/src/index.ts'' ''./a/index.ts'' = Some ''/p/src/a/index.ts''
   \<and> resolveInPackage ''/w'' candidatesFs ''/p'' ''/p/src/index.ts'' ''../../q/x'' = None"
proof -
  note h = resolveInPackage_contract[of "''/w''" candidatesFs "''/p/src/index.ts''" _ "''/p''",
      THEN conjunct2, THEN conjunct2, THEN mp]
  have a1: "startsWith (resolveSpecifier ''/w'' candidatesFs (path_dirname ''/p/src/index.ts'') ''./a'')
              (path_normalize ''/p'') \<longrightarrow>
            withinRoot (path_normalize ''/p'')
              (resolveSpecifier ''/w'' candidatesFs (path_dirname ''/p/src/index.ts'') ''./a'')"
    by code_simp
  have 1: "resolveInPackage ''/w'' candidatesFs ''/p'' ''/p/src/index.ts'' ''./a'' = Some ''/p/src/a.ts''"
    unfolding h[OF a1] by code_simp
  have a2: "startsWith (resolveSpecifier ''/w'' candidatesFs (path_dirname ''/p/src/index.ts'') ''./b'')
              (path_normalize ''/p'') \<longrightarrow>
            withinRoot (path_normalize ''/p'')
              (resolveSpecifier ''/w'' candidatesFs (path_dirname ''/p/src/index.ts'') ''./b'')"
    by code_simp
  have 2: "resolveInPackage ''/w'' candidatesFs ''/p'' ''/p/src/index.ts'' ''./b'' = Some ''/p/src/b/index.ts''"
    unfolding h[OF a2] by code_simp
  have a3: "startsWith (resolveSpecifier ''/w'' candidatesFs (path_dirname ''/p/src/index.ts'') ''./a/index.ts'')
              (path_normalize ''/p'') \<longrightarrow>
            withinRoot (path_normalize ''/p'')
              (resolveSpecifier ''/w'' candidatesFs (path_dirname ''/p/src/index.ts'') ''./a/index.ts'')"
    by code_simp
  have 3: "resolveInPackage ''/w'' candidatesFs ''/p'' ''/p/src/index.ts'' ''./a/index.ts'' = Some ''/p/src/a/index.ts''"
    unfolding h[OF a3] by code_simp
  have a4: "startsWith (resolveSpecifier ''/w'' candidatesFs (path_dirname ''/p/src/index.ts'') ''../../q/x'')
              (path_normalize ''/p'') \<longrightarrow>
            withinRoot (path_normalize ''/p'')
              (resolveSpecifier ''/w'' candidatesFs (path_dirname ''/p/src/index.ts'') ''../../q/x'')"
    by code_simp
  have 4: "resolveInPackage ''/w'' candidatesFs ''/p'' ''/p/src/index.ts'' ''../../q/x'' = None"
    unfolding h[OF a4] by code_simp
  show ?thesis
    by (rule conjI 1 2 3 4)+
qed

text \<open>
  C5 as the specification states it fails. A specifier that names an existing file of
  the package as it is given does not resolve when it does not end in \<^verbatim>\<open>.ts\<close>; and for a
  specifier that ends in \<^verbatim>\<open>.ts\<close> and names no file, the candidate with the extension
  appended is not tried although it exists. And a file of the directory \<^verbatim>\<open>/pq\<close> is a
  result for the package root \<^verbatim>\<open>/p\<close>, outside of which it lies: the test is made on the
  path strings, under the comment \<^verbatim>\<open>Only include if it's within the package\<close>.
\<close>

theorem resolveInPackage_counterexample:
  "existsSync candidatesFs ''/p/src/data.json''
   \<and> path_resolve ''/w'' [path_dirname ''/p/src/index.ts'', ''./data.json''] = ''/p/src/data.json''
   \<and> resolveInPackage ''/w'' candidatesFs ''/p'' ''/p/src/index.ts'' ''./data.json'' = None
   \<and> existsSync candidatesFs ''/p/src/old.ts.ts''
   \<and> path_resolve ''/w'' [path_dirname ''/p/src/index.ts'', ''./old.ts'' @ ''.ts''] = ''/p/src/old.ts.ts''
   \<and> resolveInPackage ''/w'' candidatesFs ''/p'' ''/p/src/index.ts'' ''./old.ts'' = None
   \<and> resolveInPackage ''/w'' escapingFs ''/p'' ''/p/src/index.ts'' ''../../pq/x'' = Some ''/pq/x.ts''
   \<and> \<not> withinRoot (path_normalize ''/p'') ''/pq/x.ts''"
proof -
  have c1: "existsSync candidatesFs ''/p/src/data.json''"
    by code_simp
  have c2: "path_resolve ''/w'' [path_dirname ''/p/src/index.ts'', ''./data.json''] = ''/p/src/data.json''"
    by code_simp
  have c3: "resolveInPackage ''/w'' candidatesFs ''/p'' ''/p/src/index.ts'' ''./data.json'' = None"
    by code_simp
  have c4: "existsSync candidatesFs ''/p/src/old.ts.ts''"
    by code_simp
  have c5: "path_resolve ''/w'' [path_dirname ''/p/src/index.ts'', ''./old.ts'' @ ''.ts''] = ''/p/src/old.ts.ts''"
    by code_simp
  have c6: "resolveInPackage ''/w'' candidatesFs ''/p'' ''/p/src/index.ts'' ''./old.ts'' = None"
    by code_simp
  have c7: "resolveInPackage ''/w'' escapingFs ''/p'' ''/p/src/index.ts'' ''../../pq/x'' = Some ''/pq/x.ts''"
    by code_simp
  have c8: "\<not> withinRoot (path_normalize ''/p'') ''/pq/x.ts''"
    by code_simp
  show ?thesis
    by (rule conjI c1 c2 c3 c4 c5 c6 c7 c8)+
qed

section \<open>The rewriter on the examples of the specification\<close>

text \<open>
  C1, the code at the example of the specification. \<^verbatim>\<open>main\<close> renames the directories and
  then calls \<^verbatim>\<open>updateExportPaths\<close> on every file of the renamed tree. In \<^verbatim>\<open>src/index\<close> the
  import of \<^verbatim>\<open>./a/util\<close> becomes \<^verbatim>\<open>./x7k/util/index\<close> (not \<^verbatim>\<open>./x7k/util\<close>), which resolves to
  nothing; in the relocated \<^verbatim>\<open>util\<close> file the re-export of \<^verbatim>\<open>./b/helper\<close> is left as it is and
  the file is not written, and it resolves to nothing either. The last two lines are the
  same run with the names and the map that \<^verbatim>\<open>anonymizeDirectories\<close> itself produces.
\<close>

theorem rewrite_after_rename_example:
  "updateExportPaths ''/w'' treeAfter ''/p/src/index.ts'' examplePlan =
     Inr ([(''/p'', Dir), (''/p/src'', Dir), (''/p/src/x7k'', Dir), (''/p/src/x7k/m2p'', Dir),
           (''/p/src/index.ts'', File (''import util from '' @ quoted ''./x7k/util/index'')),
           (''/p/src/x7k/util.ts'', File (''export * from '' @ quoted ''./b/helper'')),
           (''/p/src/x7k/m2p/helper.ts'', File ''export const h = 1;'')], True)
   \<and> resolveInPackage ''/w'' treeAfter ''/p'' ''/p/src/index.ts'' ''./x7k/util/index'' = None
   \<and> resolveInPackage ''/w'' treeAfter ''/p'' ''/p/src/index.ts'' ''./x7k/util'' = Some ''/p/src/x7k/util.ts''
   \<and> updateExportPaths ''/w'' treeAfter ''/p/src/x7k/util.ts'' examplePlan = Inr (treeAfter, False)
   \<and> resolveInPackage ''/w'' treeAfter ''/p'' ''/p/src/x7k/util.ts'' ''./b/helper'' = None
   \<and> resolveInPackage ''/w'' treeAfter ''/p'' ''/p/src/x7k/util.ts'' ''./m2p/helper'' =
       Some ''/p/src/x7k/m2p/helper.ts''
   \<and> anonymizeDirectories 3 treeBefore ''/p/src'' [] 0 = Some (Inr (treeAnonymized, anonymizedPlan))
   \<and> updateExportPaths ''/w'' treeAnonymized ''/p/src/index.ts'' anonymizedPlan =
       Inr ([(''/p'', Dir), (''/p/src'', Dir), (''/p/src/dir-2cv'', Dir),
             (''/p/src/dir-2cv/dir-2dq'', Dir),
             (''/p/src/index.ts'', File (''import util from '' @ quoted ''./dir-2cv/util/index'')),
             (''/p/src/dir-2cv/util.ts'', File (''export * from '' @ quoted ''./b/helper'')),
             (''/p/src/dir-2cv/dir-2dq/helper.ts'', File ''export const h = 1;'')], True)
   \<and> updateExportPaths ''/w'' treeAnonymized ''/p/src/dir-2cv/util.ts'' anonymizedPlan =
       Inr (treeAnonymized, False)"
proof -
  have c1: "updateExportPaths ''/w'' treeAfter ''/p/src/index.ts'' examplePlan =
     Inr ([(''/p'', Dir), (''/p/src'', Dir), (''/p/src/x7k'', Dir), (''/p/src/x7k/m2p'', Dir),
           (''/p/src/index.ts'', File (''import util from '' @ quoted ''./x7k/util/index'')),
           (''/p/src/x7k/util.ts'', File (''export * from '' @ quoted ''./b/helper'')),
           (''/p/src/x7k/m2p/helper.ts'', File ''export const h = 1;'')], True)"
    by code_simp
  have c2: "resolveInPackage ''/w'' treeAfter ''/p'' ''/p/src/index.ts'' ''./x7k/util/index'' = None"
    by code_simp
  have c3: "resolveInPackage ''/w'' treeAfter ''/p'' ''/p/src/index.ts'' ''./x7k/util'' = Some ''/p/src/x7k/util.ts''"
    by code_simp
  have c4: "updateExportPaths ''/w'' treeAfter ''/p/src/x7k/util.ts'' examplePlan = Inr (treeAfter, False)"
    by code_simp
  have c5: "resolveInPackage ''/w'' treeAfter ''/p'' ''/p/src/x7k/util.ts'' ''./b/helper'' = None"
    by code_simp
  have c6: "resolveInPackage ''/w'' treeAfter ''/p'' ''/p/src/x7k/util.ts'' ''./m2p/helper'' =
       Some ''/p/src/x7k/m2p/helper.ts''"
    by code_simp
  have c7: "anonymizeDirectories 3 treeBefore ''/p/src'' [] 0 = Some (Inr (treeAnonymized, anonymizedPlan))"
    by code_simp
  have c8: "updateExportPaths ''/w'' treeAnonymized ''/p/src/index.ts'' anonymizedPlan =
       Inr ([(''/p'', Dir), (''/p/src'', Dir), (''/p/src/dir-2cv'', Dir),
             (''/p/src/dir-2cv/dir-2dq'', Dir),
             (''/p/src/index.ts'', File (''import util from '' @ quoted ''./dir-2cv/util/index'')),
             (''/p/src/dir-2cv/util.ts'', File (''export * from '' @ quoted ''./b/helper'')),
             (''/p/src/dir-2cv/dir-2dq/helper.ts'', File ''export const h = 1;'')], True)"
    by code_simp
  have c9: "updateExportPaths ''/w'' treeAnonymized ''/p/src/dir-2cv/util.ts'' anonymizedPlan =
       Inr (treeAnonymized, False)"
    by code_simp
  show ?thesis
    by (rule conjI c1 c2 c3 c4 c5 c6 c7 c8 c9)+
qed

text \<open>
  C2, the code at the example of the specification. The specifier \<^verbatim>\<open>../shared\<close> resolves
  through the index file of the directory. With \<^verbatim>\<open>shared\<close> renamed to \<^verbatim>\<open>q9z\<close> it is rewritten
  to \<^verbatim>\<open>../q9z/index\<close>, whether the rewriter sees the tree before or after the renaming: the
  index segment is kept. The index segment is dropped only for a specifier that ends in
  \<^verbatim>\<open>/\<close> or in \<^verbatim>\<open>/index\<close>.
\<close>

theorem index_fallback_rewrite_example:
  "resolveSpecifier ''/w'' sharedFs ''/p/src/feature'' ''../shared'' = ''/p/src/shared/index.ts''
   \<and> rewriteSpecifier ''/w'' sharedFs ''/p/src/feature/f.ts'' sharedPlan
        (''export * from '' @ quoted ''../shared'') ''../shared'' =
       (''export * from '' @ quoted ''../q9z/index'', True)
   \<and> updateExportPaths ''/w'' sharedFsRenamed ''/p/src/feature/f.ts'' sharedPlan =
       Inr ([(''/p'', Dir), (''/p/src'', Dir), (''/p/src/q9z'', Dir), (''/p/src/feature'', Dir),
             (''/p/src/q9z/index.ts'', File ''export const s = 1;''),
             (''/p/src/feature/f.ts'', File (''export * from '' @ quoted ''../q9z/index''))], True)
   \<and> rewriteSpecifier ''/w'' sharedFs ''/p/src/feature/f.ts'' sharedPlan
        (''export * from '' @ quoted ''../shared/'') ''../shared/'' =
       (''export * from '' @ quoted ''../q9z'', True)
   \<and> rewriteSpecifier ''/w'' sharedFs ''/p/src/feature/f.ts'' sharedPlan
        (''export * from '' @ quoted ''../shared/index'') ''../shared/index'' =
       (''export * from '' @ quoted ''../q9z'', True)"
proof -
  have c1: "resolveSpecifier ''/w'' sharedFs ''/p/src/feature'' ''../shared'' = ''/p/src/shared/index.ts''"
    by code_simp
  have c2: "rewriteSpecifier ''/w'' sharedFs ''/p/src/feature/f.ts'' sharedPlan
        (''export * from '' @ quoted ''../shared'') ''../shared'' =
       (''export * from '' @ quoted ''../q9z/index'', True)"
    by code_simp
  have c3: "updateExportPaths ''/w'' sharedFsRenamed ''/p/src/feature/f.ts'' sharedPlan =
       Inr ([(''/p'', Dir), (''/p/src'', Dir), (''/p/src/q9z'', Dir), (''/p/src/feature'', Dir),
             (''/p/src/q9z/index.ts'', File ''export const s = 1;''),
             (''/p/src/feature/f.ts'', File (''export * from '' @ quoted ''../q9z/index''))], True)"
    by code_simp
  have c4: "rewriteSpecifier ''/w'' sharedFs ''/p/src/feature/f.ts'' sharedPlan
        (''export * from '' @ quoted ''../shared/'') ''../shared/'' =
       (''export * from '' @ quoted ''../q9z'', True)"
    by code_simp
  have c5: "rewriteSpecifier ''/w'' sharedFs ''/p/src/feature/f.ts'' sharedPlan
        (''export * from '' @ quoted ''../shared/index'') ''../shared/index'' =
       (''export * from '' @ quoted ''../q9z'', True)"
    by code_simp
  show ?thesis
    by (rule conjI c1 c2 c3 c4 c5)+
qed

lemma captures_Hit: "Hit m c \<in> set ps \<Longrightarrow> c \<in> set (captures ps)"
  by (induction ps rule: captures.induct) auto

lemma replacePieces_untouched:
  "(\<And>m c. Hit m c \<in> set ps \<Longrightarrow> f m c = (m, False)) \<Longrightarrow>
     replacePieces f ps = (concat (map pieceText ps), False)"
proof (induction ps)
  case Nil
  then show ?case by simp
next
  case (Cons pc ps)
  then have ih: "replacePieces f ps = (concat (map pieceText ps), False)" by simp
  show ?case
  proof (cases pc)
    case (Gap t)
    with ih show ?thesis by simp
  next
    case (Hit m c)
    with Cons.prems[of m c] ih show ?thesis by simp
  qed
qed

lemma rewritePass_untouched:
  assumes "consuming re"
    and "\<And>importPath. importPath \<in> set (captures (scan re content)) \<Longrightarrow> isRelativeSpecifier importPath \<Longrightarrow>
           find (\<lambda>(oldDir, newDir). startsWith (resolveSpecifier cwd fs (path_dirname filePath) importPath) oldDir)
             dirMap = None"
  shows "rewritePass re cwd fs filePath dirMap content = (content, False)"
proof -
  have "replacePieces (rewriteSpecifier cwd fs filePath dirMap) (scan re content)
          = (concat (map pieceText (scan re content)), False)"
  proof (rule replacePieces_untouched)
    fix m c assume "Hit m c \<in> set (scan re content)"
    then have c: "c \<in> set (captures (scan re content))" by (rule captures_Hit)
    show "rewriteSpecifier cwd fs filePath dirMap m c = (m, False)"
    proof (cases "isRelativeSpecifier c")
      case False
      then show ?thesis by (simp add: rewriteSpecifier_def isRelativeSpecifier_def)
    next
      case True
      from assms(2)[OF c True] True show ?thesis
        by (simp add: rewriteSpecifier_def isRelativeSpecifier_def Let_def)
    qed
  qed
  with assms(1) show ?thesis by (simp add: rewritePass_def scan_concat)
qed

text \<open>
  When no relative specifier of the file resolves to a path that has an old directory
  of the rename map as a prefix of its string, the file is not written.
\<close>

lemma no_prefix_no_write:
  assumes "readFileSync fs filePath = Inr content"
    and "\<And>importPath. importPath \<in> set (captures (scan exportFromRegex content))
                            \<union> set (captures (scan importFromRegex content)) \<Longrightarrow>
           isRelativeSpecifier importPath \<Longrightarrow>
           find (\<lambda>(oldDir, newDir). startsWith (resolveSpecifier cwd fs (path_dirname filePath) importPath) oldDir)
             dirMap = None"
  shows "updateExportPaths cwd fs filePath dirMap = Inr (fs, False)"
proof -
  from assms(1) have ex: "existsSync fs filePath"
    by (auto simp: readFileSync_def existsSync_def split: option.splits)
  have 1: "rewritePass exportFromRegex cwd fs filePath dirMap content = (content, False)"
    using assms(2) by (intro rewritePass_untouched consuming_regexes) simp_all
  have 2: "rewritePass importFromRegex cwd fs filePath dirMap content = (content, False)"
    using assms(2) by (intro rewritePass_untouched consuming_regexes) simp_all
  from ex assms(1) 1 2 show ?thesis by (simp add: updateExportPaths_def)
qed

text \<open>
  C10, the code where a renamed directory has a sibling whose name starts with its
  name. The directory \<^verbatim>\<open>calc\<close> is renamed; the entry file re-exports the file
  \<^verbatim>\<open>calculator.ts\<close> beside it, which is not below \<^verbatim>\<open>calc\<close>. The rewriter sets \<^verbatim>\<open>modified\<close> and
  writes the file (with the content it had). With a directory \<^verbatim>\<open>utils\<close> beside a renamed
  directory \<^verbatim>\<open>util\<close>, the re-export of \<^verbatim>\<open>./utils\<close> is rewritten to \<^verbatim>\<open>./utils/index\<close>, so the
  content changes too.
\<close>

theorem sibling_prefix_rewrite_example:
  "anonymizeDirectories 2 calcFs ''/p/src'' [] 0 =
     Some (Inr (calcFsAnonymized, [(''/p/src/calc'', ''/p/src/dir-1k7uyj'')]))
   \<and> resolveSpecifier ''/w'' calcFsAnonymized ''/p/src'' ''./calculator'' = ''/p/src/calculator.ts''
   \<and> \<not> isBelow ''/p/src/calc'' ''/p/src/calculator.ts''
   \<and> updateExportPaths ''/w'' calcFsAnonymized ''/p/src/index.ts''
        [(''/p/src/calc'', ''/p/src/dir-1k7uyj'')] = Inr (calcFsAnonymized, True)
   \<and> resolveSpecifier ''/w'' siblingFs ''/p/src'' ''./utils'' = ''/p/src/utils/index.ts''
   \<and> \<not> isBelow ''/p/src/util'' ''/p/src/utils/index.ts''
   \<and> updateExportPaths ''/w'' siblingFs ''/p/src/index.ts'' [(''/p/src/util'', ''/p/src/q1'')] =
       Inr ([(''/p'', Dir), (''/p/src'', Dir), (''/p/src/util'', Dir), (''/p/src/utils'', Dir),
             (''/p/src/util/u.ts'', File ''export const u = 1;''),
             (''/p/src/utils/index.ts'', File ''export const v = 1;''),
             (''/p/src/index.ts'', File (''export * from '' @ quoted ''./utils/index''))], True)"
proof -
  have c1: "anonymizeDirectories 2 calcFs ''/p/src'' [] 0 =
     Some (Inr (calcFsAnonymized, [(''/p/src/calc'', ''/p/src/dir-1k7uyj'')]))"
    by code_simp
  have c2: "resolveSpecifier ''/w'' calcFsAnonymized ''/p/src'' ''./calculator'' = ''/p/src/calculator.ts''"
    by code_simp
  have c3: "\<not> isBelow ''/p/src/calc'' ''/p/src/calculator.ts''"
    by code_simp
  have c4: "updateExportPaths ''/w'' calcFsAnonymized ''/p/src/index.ts''
        [(''/p/src/calc'', ''/p/src/dir-1k7uyj'')] = Inr (calcFsAnonymized, True)"
    by code_simp
  have c5: "resolveSpecifier ''/w'' siblingFs ''/p/src'' ''./utils'' = ''/p/src/utils/index.ts''"
    by code_simp
  have c6: "\<not> isBelow ''/p/src/util'' ''/p/src/utils/index.ts''"
    by code_simp
  have c7: "updateExportPaths ''/w'' siblingFs ''/p/src/index.ts'' [(''/p/src/util'', ''/p/src/q1'')] =
       Inr ([(''/p'', Dir), (''/p/src'', Dir), (''/p/src/util'', Dir), (''/p/src/utils'', Dir),
             (''/p/src/util/u.ts'', File ''export const u = 1;''),
             (''/p/src/utils/index.ts'', File ''export const v = 1;''),
             (''/p/src/index.ts'', File (''export * from '' @ quoted ''./utils/index''))], True)"
    by code_simp
  show ?thesis
    by (rule conjI c1 c2 c3 c4 c5 c6 c7)+
qed


section \<open>The rename map does not depend on the run\<close>

lemma anonymizeEntries_mono:
  assumes "\<And>fs p d i r. rec1 fs p d i = Some r \<Longrightarrow> rec2 fs p d i = Some r"
  shows "anonymizeEntries rec1 fs packageRoot entries dirMap index = Some r \<Longrightarrow>
         anonymizeEntries rec2 fs packageRoot entries dirMap index = Some r"
proof (induction entries arbitrary: fs dirMap index)
  case Nil
  then show ?case by simp
next
  case (Cons e entries)
  obtain name isDirectory where e: "e = (name, isDirectory)" by (cases e)
  show ?case
  proof (cases "\<not> isDirectory \<or> skippedDirectory name")
    case True
    with Cons e show ?thesis by auto
  next
    case False
    let ?full = "path_join [packageRoot, name]"
    from False Cons.prems e obtain r1 where r1: "rec1 fs ?full dirMap index = Some r1"
      by (cases "rec1 fs ?full dirMap index") (auto simp: Let_def)
    then have r2: "rec2 fs ?full dirMap index = Some r1" by (rule assms)
    show ?thesis
    proof (cases r1)
      case (Inl err)
      with False Cons.prems e r1 r2 show ?thesis by (auto simp: Let_def)
    next
      case (Inr res)
      obtain fs1 dirMap1 where res: "res = (fs1, dirMap1)" by (cases res)
      show ?thesis
      proof (cases "name \<noteq> generateFolderName name index")
        case True
        show ?thesis
        proof (cases "renameSync fs1 ?full (path_join [packageRoot, generateFolderName name index])")
          case (Inl err)
          with True False Cons.prems e r1 r2 \<open>r1 = Inr res\<close> res show ?thesis by (auto simp: Let_def)
        next
          case (Inr fs2)
          with True False Cons.prems e r1 \<open>r1 = Inr res\<close> res
          have "anonymizeEntries rec1 fs2 packageRoot entries
                  (mapSet ?full (path_join [packageRoot, generateFolderName name index]) dirMap1)
                  (index + 1) = Some r"
            by (simp add: Let_def)
          from Cons.IH[OF this] True False e r2 \<open>r1 = Inr res\<close> res Inr
          show ?thesis by (simp add: Let_def)
        qed
      next
        case same: False
        with False Cons.prems e r1 Inr res
        have "anonymizeEntries rec1 fs1 packageRoot entries dirMap1 (index + 1) = Some r"
          by (simp add: Let_def)
        from Cons.IH[OF this] same False e r2 Inr res
        show ?thesis by (simp add: Let_def)
      qed
    qed
  qed
qed

lemma anonymizeDirectories_Suc:
  "anonymizeDirectories fuel fs packageRoot dirMap index = Some r \<Longrightarrow>
   anonymizeDirectories (Suc fuel) fs packageRoot dirMap index = Some r"
proof (induction fuel arbitrary: fs packageRoot dirMap index r)
  case 0
  then show ?case by simp
next
  case (Suc fuel)
  show ?case
  proof (cases "readdirSync fs packageRoot")
    case (Inl e)
    with Suc.prems show ?thesis by simp
  next
    case (Inr entries)
    with Suc.prems
    have "anonymizeEntries (anonymizeDirectories fuel) fs packageRoot entries dirMap index = Some r"
      by simp
    then have "anonymizeEntries (anonymizeDirectories (Suc fuel)) fs packageRoot entries dirMap index = Some r"
      by (rule anonymizeEntries_mono[rotated]) (rule Suc.IH)
    with Inr show ?thesis by simp
  qed
qed

lemma anonymizeDirectories_more_fuel:
  "anonymizeDirectories fuel fs packageRoot dirMap index = Some r \<Longrightarrow>
   anonymizeDirectories (fuel + k) fs packageRoot dirMap index = Some r"
  by (induction k) (auto dest: anonymizeDirectories_Suc)

lemma map_of_directoryTree: "map_of (directoryTree fs) p = map_option (\<lambda>n. n = Dir) (map_of fs p)"
  by (induction fs) (auto simp: directoryTree_def)

lemma kind_eq:
  assumes "directoryTree fs1 = directoryTree fs2"
  shows "(map_of fs1 p = None \<longleftrightarrow> map_of fs2 p = None)
       \<and> (map_of fs1 p = Some Dir \<longleftrightarrow> map_of fs2 p = Some Dir)"
proof -
  from assms have "map_option (\<lambda>n. n = Dir) (map_of fs1 p) = map_option (\<lambda>n. n = Dir) (map_of fs2 p)"
    by (simp add: map_of_directoryTree[symmetric])
  then show ?thesis
    by (cases "map_of fs1 p"; cases "map_of fs2 p") auto
qed

lemma readdirSync_directoryTree_form:
  "map (\<lambda>(p, n). (path_basename p, n = Dir)) (filter (\<lambda>(p, n). p \<noteq> dir \<and> path_dirname p = dir) fs)
   = map (\<lambda>(p, b). (path_basename p, b)) (filter (\<lambda>(p, b). p \<noteq> dir \<and> path_dirname p = dir) (directoryTree fs))"
  by (induction fs) (auto simp: directoryTree_def)

lemma readdirSync_directoryTree:
  assumes "directoryTree fs1 = directoryTree fs2"
  shows "readdirSync fs1 dir = readdirSync fs2 dir"
proof -
  note k = kind_eq[OF assms, of dir]
  have l: "map (\<lambda>(p, n). (path_basename p, n = Dir)) (filter (\<lambda>(p, n). p \<noteq> dir \<and> path_dirname p = dir) fs1)
         = map (\<lambda>(p, n). (path_basename p, n = Dir)) (filter (\<lambda>(p, n). p \<noteq> dir \<and> path_dirname p = dir) fs2)"
    by (simp only: readdirSync_directoryTree_form assms)
  show ?thesis
  proof (cases "map_of fs1 dir")
    case None
    with k show ?thesis by (simp add: readdirSync_def)
  next
    case (Some n1)
    with k obtain n2 where n2: "map_of fs2 dir = Some n2" by (cases "map_of fs2 dir") auto
    with Some k have "n1 = Dir \<longleftrightarrow> n2 = Dir" by simp
    with Some n2 l show ?thesis
      by (cases n1; cases n2) (simp_all add: readdirSync_def)
  qed
qed

lemma directoryTree_moveEntries:
  "directoryTree (moveEntries a b fs) =
     map (\<lambda>(p, k). (if p = a then b else if isBelow a p then b @ drop (length a) p else p, k)) (directoryTree fs)"
  by (induction fs) (auto simp: directoryTree_def moveEntries_def)

lemma directoryTree_filter:
  "directoryTree (filter (\<lambda>(p, n). p \<noteq> x) fs) = filter (\<lambda>(p, k). p \<noteq> x) (directoryTree fs)"
  by (induction fs) (auto simp: directoryTree_def)

lemma list_ex_directoryTree:
  "list_ex (\<lambda>(p, n). isBelow x p) fs = list_ex (\<lambda>(p, k). isBelow x p) (directoryTree fs)"
  by (induction fs) (auto simp: directoryTree_def)

lemma renameSync_directoryTree:
  assumes "directoryTree fs1 = directoryTree fs2"
  shows "(case renameSync fs1 a b of Inl e \<Rightarrow> Inl e | Inr fs \<Rightarrow> Inr (directoryTree fs))
       = (case renameSync fs2 a b of Inl e \<Rightarrow> Inl e | Inr fs \<Rightarrow> Inr (directoryTree fs))"
proof -
  note ka = kind_eq[OF assms, of a]
  note kb = kind_eq[OF assms, of b]
  note kd = kind_eq[OF assms, of "path_dirname b"]
  have ex: "list_ex (\<lambda>(p, n). isBelow b p) fs1 = list_ex (\<lambda>(p, n). isBelow b p) fs2"
    by (simp only: list_ex_directoryTree assms)
  have mv: "directoryTree (moveEntries a b fs1) = directoryTree (moveEntries a b fs2)"
    by (simp only: directoryTree_moveEntries assms)
  have mvf: "directoryTree (moveEntries a b (filter (\<lambda>(p, n). p \<noteq> b) fs1))
           = directoryTree (moveEntries a b (filter (\<lambda>(p, n). p \<noteq> b) fs2))"
    by (simp only: directoryTree_moveEntries directoryTree_filter assms)
  show ?thesis
  proof (cases "map_of fs1 a")
    case None
    with ka show ?thesis by (simp add: renameSync_def)
  next
    case (Some n1)
    with ka obtain n2 where n2: "map_of fs2 a = Some n2" by (cases "map_of fs2 a") auto
    with Some ka have n12: "n1 = Dir \<longleftrightarrow> n2 = Dir" by simp
    show ?thesis
    proof (cases "a = b")
      case True
      with Some n2 assms show ?thesis by (simp add: renameSync_def)
    next
      case ab: False
      show ?thesis
      proof (cases "map_of fs1 (path_dirname b) = Some Dir")
        case False
        with kd have "map_of fs2 (path_dirname b) \<noteq> Some Dir" by simp
        with False ab Some n2 show ?thesis by (simp add: renameSync_def)
      next
        case d1: True
        with kd have d2: "map_of fs2 (path_dirname b) = Some Dir" by simp
        show ?thesis
        proof (cases "n1 = Dir \<and> isBelow a b")
          case True
          with n12 have "n2 = Dir \<and> isBelow a b" by simp
          with True d1 d2 ab Some n2 show ?thesis by (simp add: renameSync_def)
        next
          case nb: False
          with n12 have nb2: "\<not> (n2 = Dir \<and> isBelow a b)" by simp
          have r1: "renameSync fs1 a b =
              (case map_of fs1 b of
                  None \<Rightarrow> Inr (moveEntries a b fs1)
                | Some Dir \<Rightarrow>
                    if n1 \<noteq> Dir then Inl EISDIR
                    else if list_ex (\<lambda>(p, n). isBelow b p) fs1 then Inl ENOTEMPTY
                    else Inr (moveEntries a b (filter (\<lambda>(p, n). p \<noteq> b) fs1))
                | Some (File _) \<Rightarrow>
                    if n1 = Dir then Inl ENOTDIR
                    else Inr (moveEntries a b (filter (\<lambda>(p, n). p \<noteq> b) fs1)))"
            using nb d1 ab Some by (simp add: renameSync_def)
          have r2: "renameSync fs2 a b =
              (case map_of fs2 b of
                  None \<Rightarrow> Inr (moveEntries a b fs2)
                | Some Dir \<Rightarrow>
                    if n2 \<noteq> Dir then Inl EISDIR
                    else if list_ex (\<lambda>(p, n). isBelow b p) fs2 then Inl ENOTEMPTY
                    else Inr (moveEntries a b (filter (\<lambda>(p, n). p \<noteq> b) fs2))
                | Some (File _) \<Rightarrow>
                    if n2 = Dir then Inl ENOTDIR
                    else Inr (moveEntries a b (filter (\<lambda>(p, n). p \<noteq> b) fs2)))"
            using nb2 d2 ab n2 by (simp add: renameSync_def)
          show ?thesis
          proof (cases "map_of fs1 b")
            case None
            with kb have "map_of fs2 b = None" by simp
            with None mv show ?thesis unfolding r1 r2 by simp
          next
            case sb: (Some m1)
            with kb obtain m2 where m2: "map_of fs2 b = Some m2" by (cases "map_of fs2 b") auto
            with sb kb have m12: "m1 = Dir \<longleftrightarrow> m2 = Dir" by simp
            show ?thesis
            proof (cases m1)
              case Dir
              with m12 have "m2 = Dir" by simp
              with Dir sb m2 n12 ex mvf show ?thesis unfolding r1 r2 by simp
            next
              case (File c1)
              with m12 obtain c2 where "m2 = File c2" by (cases m2) auto
              with File sb m2 n12 mvf show ?thesis unfolding r1 r2 by simp
            qed
          qed
        qed
      qed
    qed
  qed
qed

lemma anonymizeEntries_directoryTree:
  assumes rec: "\<And>fs1 fs2 p d i. directoryTree fs1 = directoryTree fs2 \<Longrightarrow>
                  map_option planOutcome (recurse fs1 p d i) = map_option planOutcome (recurse fs2 p d i)"
    and "directoryTree fs1 = directoryTree fs2"
  shows "map_option planOutcome (anonymizeEntries recurse fs1 packageRoot entries dirMap index)
       = map_option planOutcome (anonymizeEntries recurse fs2 packageRoot entries dirMap index)"
  using assms(2)
proof (induction entries arbitrary: fs1 fs2 dirMap index)
  case Nil
  then show ?case by (simp add: planOutcome_def)
next
  case (Cons e entries)
  obtain name isDirectory where e: "e = (name, isDirectory)" by (cases e)
  show ?case
  proof (cases "\<not> isDirectory \<or> skippedDirectory name")
    case True
    with Cons.IH[OF Cons.prems] e show ?thesis by auto
  next
    case False
    let ?full = "path_join [packageRoot, name]"
    let ?new = "path_join [packageRoot, generateFolderName name index]"
    note r = rec[OF Cons.prems, of ?full dirMap index]
    show ?thesis
    proof (cases "recurse fs1 ?full dirMap index")
      case None
      with r have "recurse fs2 ?full dirMap index = None" by simp
      with None False e show ?thesis by (simp add: Let_def)
    next
      case (Some r1)
      with r obtain r2 where r2: "recurse fs2 ?full dirMap index = Some r2" "planOutcome r1 = planOutcome r2"
        by (cases "recurse fs2 ?full dirMap index") auto
      show ?thesis
      proof (cases r1)
        case (Inl err)
        with r2 have "r2 = Inl err" by (cases r2) (auto simp: planOutcome_def)
        with Inl Some r2 False e show ?thesis by (simp add: Let_def)
      next
        case (Inr res1)
        obtain g1 m1 where res1: "res1 = (g1, m1)" by (cases res1)
        from Inr res1 r2 obtain g2 where g2: "r2 = Inr (g2, m1)" "directoryTree g1 = directoryTree g2"
          by (cases r2) (auto simp: planOutcome_def)
        show ?thesis
        proof (cases "name \<noteq> generateFolderName name index")
          case same: False
          with Cons.IH[OF g2(2), of m1 "index + 1"] Some Inr res1 r2 g2 False e
          show ?thesis by (simp add: Let_def)
        next
          case True
          note rs = renameSync_directoryTree[OF g2(2), of ?full ?new]
          show ?thesis
          proof (cases "renameSync g1 ?full ?new")
            case (Inl err)
            with rs have "renameSync g2 ?full ?new = Inl err"
              by (cases "renameSync g2 ?full ?new") auto
            with Inl True Some Inr res1 r2 g2 False e show ?thesis
              by (simp add: Let_def)
          next
            case h1: (Inr h1)
            with rs obtain h2 where h2: "renameSync g2 ?full ?new = Inr h2" "directoryTree h1 = directoryTree h2"
              by (cases "renameSync g2 ?full ?new") auto
            with Cons.IH[OF h2(2), of "mapSet ?full ?new m1" "index + 1"]
              h1 True Some Inr res1 r2 g2 False e
            show ?thesis by (simp add: Let_def)
          qed
        qed
      qed
    qed
  qed
qed

lemma anonymizeDirectories_directoryTree:
  "directoryTree fs1 = directoryTree fs2 \<Longrightarrow>
     map_option planOutcome (anonymizeDirectories fuel fs1 packageRoot dirMap index)
   = map_option planOutcome (anonymizeDirectories fuel fs2 packageRoot dirMap index)"
proof (induction fuel arbitrary: fs1 fs2 packageRoot dirMap index)
  case 0
  then show ?case by simp
next
  case (Suc fuel)
  from readdirSync_directoryTree[OF Suc.prems, of packageRoot]
  have rd: "readdirSync fs1 packageRoot = readdirSync fs2 packageRoot" .
  show ?case
  proof (cases "readdirSync fs2 packageRoot")
    case (Inl e)
    with rd show ?thesis by (simp add: planOutcome_def)
  next
    case (Inr entries)
    have "map_option planOutcome
            (anonymizeEntries (anonymizeDirectories fuel) fs1 packageRoot entries dirMap index)
        = map_option planOutcome
            (anonymizeEntries (anonymizeDirectories fuel) fs2 packageRoot entries dirMap index)"
      using Suc.prems by (intro anonymizeEntries_directoryTree Suc.IH)
    with rd Inr show ?thesis by simp
  qed
qed

text \<open>
  C7. Take two runs of \<^verbatim>\<open>anonymizeDirectories\<close> with the same directory, map and counter,
  on file systems with the same directory tree (the same paths in the same order, each
  a directory in both or a file in both; what the files hold may differ). If both runs
  come to an end, with whatever fuel each had, they end the same way: with the same
  exception, or with the same rename map, pair for pair in the same order, and the
  same renamed tree. On one and the same file system the two results are equal.
\<close>

theorem planner_deterministic:
  assumes "directoryTree fs1 = directoryTree fs2"
    and "anonymizeDirectories fuel1 fs1 packageRoot dirMap index = Some r1"
    and "anonymizeDirectories fuel2 fs2 packageRoot dirMap index = Some r2"
  shows "planOutcome r1 = planOutcome r2 \<and> (fs1 = fs2 \<longrightarrow> r1 = r2)"
proof -
  from anonymizeDirectories_more_fuel[OF assms(2), of fuel2]
  have 1: "anonymizeDirectories (fuel1 + fuel2) fs1 packageRoot dirMap index = Some r1" .
  from anonymizeDirectories_more_fuel[OF assms(3), of fuel1]
  have 2: "anonymizeDirectories (fuel1 + fuel2) fs2 packageRoot dirMap index = Some r2"
    by (simp add: add.commute)
  from anonymizeDirectories_directoryTree[OF assms(1), of "fuel1 + fuel2" packageRoot dirMap index] 1 2
  have "planOutcome r1 = planOutcome r2" by simp
  moreover from 1 2 have "fs1 = fs2 \<longrightarrow> r1 = r2" by auto
  ultimately show ?thesis by simp
qed

theorem planner_deterministic_witness:
  "directoryTree treeBefore = directoryTree treeStubbed
   \<and> anonymizeDirectories 3 treeBefore ''/p/src'' [] 0 = Some (Inr (treeAnonymized, anonymizedPlan))
   \<and> (\<exists>fs'. anonymizeDirectories 5 treeStubbed ''/p/src'' [] 0 = Some (Inr (fs', anonymizedPlan))
             \<and> directoryTree fs' = directoryTree treeAnonymized)"
proof -
  have t: "directoryTree treeBefore = directoryTree treeStubbed"
    by code_simp
  have a: "anonymizeDirectories 3 treeBefore ''/p/src'' [] 0 = Some (Inr (treeAnonymized, anonymizedPlan))"
    by code_simp
  have "anonymizeDirectories 5 treeStubbed ''/p/src'' [] 0 \<noteq> None"
    by code_simp
  then obtain r where b: "anonymizeDirectories 5 treeStubbed ''/p/src'' [] 0 = Some r"
    by blast
  from planner_deterministic[OF t a b]
  have "planOutcome r = Inr (directoryTree treeAnonymized, anonymizedPlan)"
    by (simp add: planOutcome_def)
  then obtain fs' where "r = Inr (fs', anonymizedPlan)" "directoryTree fs' = directoryTree treeAnonymized"
    by (cases r) (auto simp: planOutcome_def split: prod.splits)
  with b have "\<exists>fs'. anonymizeDirectories 5 treeStubbed ''/p/src'' [] 0 = Some (Inr (fs', anonymizedPlan))
             \<and> directoryTree fs' = directoryTree treeAnonymized" by blast
  with t a show ?thesis by (intro conjI)
qed

section \<open>Fatal usage errors\<close>

text \<open>
  C9. When the argument is missing (or empty), names a path that does not exist, or
  names a path that is not a directory, \<^verbatim>\<open>main\<close> prints an error and exits with status 1;
  the file system is as it was, the rest of \<^verbatim>\<open>main\<close> is never reached (the outcome does
  not depend on it), and the only calls made to the file system are \<^verbatim>\<open>existsSync\<close> and
  \<^verbatim>\<open>statSync\<close>. For a missing argument no call is made at all.
\<close>

theorem main_usage_errors_before_mutation:
  "(argument argv 2 = None \<or> argument argv 2 = Some [] \<longrightarrow>
      main anonymize cwd argv fs =
        Exit 1 \<lparr>fileSystem = fs,
                errorOutput =
                  [''Usage: bun tools/scripts/anonymize-package.js <package-path>'',
                   ''Example: bun tools/scripts/anonymize-package.js packages/calculators/income-tax''],
                fsCalls = []\<rparr>)
   \<and> (argument argv 2 = Some p \<and> p \<noteq> [] \<and> \<not> existsSync fs (path_resolve cwd [p]) \<longrightarrow>
      main anonymize cwd argv fs =
        Exit 1 \<lparr>fileSystem = fs,
                errorOutput = [''Error: Package path does not exist: '' @ path_resolve cwd [p]],
                fsCalls = [ExistsSyncCall (path_resolve cwd [p])]\<rparr>)
   \<and> (argument argv 2 = Some p \<and> p \<noteq> [] \<and> existsSync fs (path_resolve cwd [p])
        \<and> map_of fs (path_resolve cwd [p]) \<noteq> Some Dir \<longrightarrow>
      main anonymize cwd argv fs =
        Exit 1 \<lparr>fileSystem = fs,
                errorOutput = [''Error: Package path is not a directory: '' @ path_resolve cwd [p]],
                fsCalls = [ExistsSyncCall (path_resolve cwd [p]),
                           StatSyncCall (path_resolve cwd [p])]\<rparr>)"
  by (simp add: main_def Let_def)

theorem main_usage_errors_witness:
  "main mutatingContinuation ''/w'' [''bun'', ''anonymize-package.js''] [(''/w'', Dir)] =
     Exit 1 \<lparr>fileSystem = [(''/w'', Dir)],
             errorOutput =
               [''Usage: bun tools/scripts/anonymize-package.js <package-path>'',
                ''Example: bun tools/scripts/anonymize-package.js packages/calculators/income-tax''],
             fsCalls = []\<rparr>
   \<and> main mutatingContinuation ''/w'' [''bun'', ''anonymize-package.js'', ''pkg''] [(''/w'', Dir)] =
     Exit 1 \<lparr>fileSystem = [(''/w'', Dir)],
             errorOutput = [''Error: Package path does not exist: /w/pkg''],
             fsCalls = [ExistsSyncCall ''/w/pkg'']\<rparr>
   \<and> main mutatingContinuation ''/w'' [''bun'', ''anonymize-package.js'', ''pkg'']
         [(''/w'', Dir), (''/w/pkg'', File ''x'')] =
     Exit 1 \<lparr>fileSystem = [(''/w'', Dir), (''/w/pkg'', File ''x'')],
             errorOutput = [''Error: Package path is not a directory: /w/pkg''],
             fsCalls = [ExistsSyncCall ''/w/pkg'', StatSyncCall ''/w/pkg'']\<rparr>"
proof -
  have r: "path_resolve ''/w'' [''pkg''] = ''/w/pkg''"
    by (simp add: path_resolve_def normalizeString_def isAbsolute_def)
  have a0: "argument [''bun'', ''anonymize-package.js''] 2 = None"
    by (simp add: argument_def)
  have a1: "argument [''bun'', ''anonymize-package.js'', ''pkg''] 2 = Some ''pkg''"
    by (simp add: argument_def)
  have c1: "main mutatingContinuation ''/w'' [''bun'', ''anonymize-package.js''] [(''/w'', Dir)] =
     Exit 1 \<lparr>fileSystem = [(''/w'', Dir)],
             errorOutput =
               [''Usage: bun tools/scripts/anonymize-package.js <package-path>'',
                ''Example: bun tools/scripts/anonymize-package.js packages/calculators/income-tax''],
             fsCalls = []\<rparr>"
    using main_usage_errors_before_mutation
      [of "[''bun'', ''anonymize-package.js'']" mutatingContinuation "''/w''" "[(''/w'', Dir)]" "''pkg''"] a0
    by blast
  have c2: "main mutatingContinuation ''/w'' [''bun'', ''anonymize-package.js'', ''pkg''] [(''/w'', Dir)] =
     Exit 1 \<lparr>fileSystem = [(''/w'', Dir)],
             errorOutput = [''Error: Package path does not exist: /w/pkg''],
             fsCalls = [ExistsSyncCall ''/w/pkg'']\<rparr>"
    using main_usage_errors_before_mutation
      [of "[''bun'', ''anonymize-package.js'', ''pkg'']" mutatingContinuation "''/w''" "[(''/w'', Dir)]" "''pkg''"] a1
    by (simp add: r existsSync_def)
  have c3: "main mutatingContinuation ''/w'' [''bun'', ''anonymize-package.js'', ''pkg'']
         [(''/w'', Dir), (''/w/pkg'', File ''x'')] =
     Exit 1 \<lparr>fileSystem = [(''/w'', Dir), (''/w/pkg'', File ''x'')],
             errorOutput = [''Error: Package path is not a directory: /w/pkg''],
             fsCalls = [ExistsSyncCall ''/w/pkg'', StatSyncCall ''/w/pkg'']\<rparr>"
    using main_usage_errors_before_mutation
      [of "[''bun'', ''anonymize-package.js'', ''pkg'']" mutatingContinuation "''/w''"
          "[(''/w'', Dir), (''/w/pkg'', File ''x'')]" "''pkg''"] a1
    by (simp add: r existsSync_def)
  show ?thesis
    by (rule conjI c1 c2 c3)+
qed

end
